theory Spec2Isabelle
  imports Complex_Main "HOL-Library.Sublist" "HOL-Library.Multiset"
begin

section \<open>Strings\<close>

text \<open>
  JavaScript strings are modelled as \<^typ>\<open>string\<close>, the UTF-8 bytes of the text.
  \<^verbatim>\<open>hay.includes(needle)\<close> is contiguous containment; it is computed here by trying
  the needle as a prefix at every position of the haystack.
\<close>

fun js_includes :: "string \<Rightarrow> string \<Rightarrow> bool" where
  "js_includes [] needle = (needle = [])"
| "js_includes (c # cs) needle = (prefix needle (c # cs) \<or> js_includes cs needle)"

text \<open>\<^verbatim>\<open>s.split('\n')\<close>: the pieces between line feeds; the empty string gives one empty piece.\<close>

fun split_nl :: "string \<Rightarrow> string list" where
  "split_nl [] = [[]]"
| "split_nl (c # cs) =
     (if c = CHR 0x0A then [] # split_nl cs
      else (case split_nl cs of [] \<Rightarrow> [[c]] | l # ls \<Rightarrow> (c # l) # ls))"

text \<open>Numbers inside template literals are printed in decimal.\<close>

definition digit :: "nat \<Rightarrow> char" where
  "digit d = ''0123456789'' ! d"

fun show_nat :: "nat \<Rightarrow> string" where
  "show_nat n = (if n < 10 then [digit n] else show_nat (n div 10) @ [digit (n mod 10)])"

declare show_nat.simps [simp del]

definition show_int :: "int \<Rightarrow> string" where
  "show_int i = (if i < 0 then CHR ''-'' # show_nat (nat (- i)) else show_nat (nat i))"

text \<open>\<^verbatim>\<open>xs.findIndex(p)\<close>: the first index whose element satisfies \<open>p\<close>, and \<open>-1\<close> when none does.\<close>

fun findIndexFrom :: "int \<Rightarrow> ('a \<Rightarrow> bool) \<Rightarrow> 'a list \<Rightarrow> int" where
  "findIndexFrom k p [] = - 1"
| "findIndexFrom k p (x # xs) = (if p x then k else findIndexFrom (k + 1) p xs)"

definition findIndex :: "('a \<Rightarrow> bool) \<Rightarrow> 'a list \<Rightarrow> int" where
  "findIndex p xs = findIndexFrom 0 p xs"

section \<open>The document object\<close>

text \<open>
  \<open>generatePDF\<close> drives a PDFKit document. The document is modelled by the part of its
  state that the function reads and writes: the pages, the vertical cursor and the font
  size. Each call of \<^verbatim>\<open>text\<close> puts one block on the page where it starts.

  PDFKit keeps a buffer of open pages. Unless the document was constructed with the
  option \<^verbatim>\<open>bufferPages: true\<close>, \<^verbatim>\<open>addPage\<close> first writes out every buffered page, so the
  buffer holds the current page only. \<^verbatim>\<open>bufferedPageRange()\<close> describes the buffer, not the
  document, and \<^verbatim>\<open>switchToPage\<close> reaches buffered pages only and throws for any other
  index. \<open>flushed\<close> are the pages already written out, in order; their number is the
  start of the buffered range.

  Font metrics are not part of the source: the page height, the height of a line at a
  font size, and the number of lines a string wraps to are parameters.
\<close>

datatype error = OutOfBounds nat | Thrown string

record block =
  btext :: string
  bsize :: real
  bcenter :: bool
  blink :: "string option"
  bdest :: "string option"

type_synonym page = "block list"

record metrics =
  pageHeight :: real
  lineHeight :: "real \<Rightarrow> real"
  wrapCount :: "real \<Rightarrow> string \<Rightarrow> nat"

record doc =
  flushed :: "page list"
  pageBuffer :: "page list"
  current :: nat
  docY :: real
  fontSz :: real
  bufferPages :: bool

record opts =
  align_center :: bool
  link :: "string option"
  destination :: "string option"

definition no_opts :: opts where
  "no_opts = \<lparr>align_center = False, link = None, destination = None\<rparr>"

definition flushPages :: "doc \<Rightarrow> doc" where
  "flushPages d = d\<lparr>flushed := flushed d @ pageBuffer d, pageBuffer := []\<rparr>"

text \<open>A new page becomes the current one and the cursor returns to the top margin (50).\<close>

definition addPage :: "doc \<Rightarrow> doc" where
  "addPage d =
     (let d1 = (if \<not> bufferPages d then flushPages d else d)
      in d1\<lparr>pageBuffer := pageBuffer d1 @ [[]], current := length (pageBuffer d1), docY := 50\<rparr>)"

text \<open>\<^verbatim>\<open>new PDFDocument(options)\<close> adds the first page itself; the default font size is 12.\<close>

definition newDocument :: "bool \<Rightarrow> doc" where
  "newDocument bp =
     addPage \<lparr>flushed = [], pageBuffer = [], current = 0, docY = 0, fontSz = 12, bufferPages = bp\<rparr>"

definition bufferedPageCount :: "doc \<Rightarrow> nat" where
  "bufferedPageCount d = length (pageBuffer d)"

definition switchToPage :: "nat \<Rightarrow> doc \<Rightarrow> error + doc" where
  "switchToPage n d =
     (if n < length (flushed d) \<or> length (pageBuffer d) \<le> n - length (flushed d)
      then Inl (OutOfBounds n)
      else Inr (d\<lparr>current := n - length (flushed d)\<rparr>))"

definition fontSize :: "real \<Rightarrow> doc \<Rightarrow> doc" where
  "fontSize s d = d\<lparr>fontSz := s\<rparr>"

definition moveDown :: "metrics \<Rightarrow> real \<Rightarrow> doc \<Rightarrow> doc" where
  "moveDown M n d = d\<lparr>docY := docY d + lineHeight M (fontSz d) * n\<rparr>"

definition maxY :: "metrics \<Rightarrow> real" where
  "maxY M = pageHeight M - 50"

definition writeBlock :: "block \<Rightarrow> doc \<Rightarrow> doc" where
  "writeBlock b d = d\<lparr>pageBuffer := (pageBuffer d)[current d := pageBuffer d ! current d @ [b]]\<rparr>"

text \<open>
  The lines of one block: each advances the cursor by a line height, and a line that no
  longer fits above the bottom margin continues on a new page.
\<close>

fun flow :: "metrics \<Rightarrow> nat \<Rightarrow> doc \<Rightarrow> doc" where
  "flow M 0 d = d"
| "flow M (Suc n) d =
     (let d1 = d\<lparr>docY := docY d + lineHeight M (fontSz d)\<rparr>
      in if 0 < n \<and> maxY M < docY d1 + lineHeight M (fontSz d1) then flow M n (addPage d1)
         else flow M n d1)"

text \<open>
  \<^verbatim>\<open>doc.text(str, x, y, options)\<close>: an explicit position moves the cursor first; text
  whose first line does not fit above the bottom margin starts on a new page.
\<close>

definition text_at :: "metrics \<Rightarrow> string \<Rightarrow> real option \<Rightarrow> opts \<Rightarrow> doc \<Rightarrow> doc" where
  "text_at M str pos os d =
     (let d0 = (case pos of None \<Rightarrow> d | Some y \<Rightarrow> d\<lparr>docY := y\<rparr>);
          d1 = (if maxY M < docY d0 \<or> maxY M < docY d0 + lineHeight M (fontSz d0)
                then addPage d0 else d0);
          b = \<lparr>btext = str, bsize = fontSz d1, bcenter = align_center os,
               blink = link os, bdest = destination os\<rparr>
      in flow M (wrapCount M (fontSz d1) str) (writeBlock b d1))"

text \<open>\<^verbatim>\<open>doc.end()\<close> writes out what is still buffered; the result is every page in order.\<close>

definition endDoc :: "doc \<Rightarrow> page list" where
  "endDoc d = flushed d @ pageBuffer d"

section \<open>generatePDF\<close>

definition ensureSpace :: "metrics \<Rightarrow> real \<Rightarrow> doc \<Rightarrow> doc" where
  "ensureSpace M neededSpace d =
     (if pageHeight M - 50 < docY d + neededSpace then addPage d else d)"

definition titlePass :: "metrics \<Rightarrow> doc \<Rightarrow> doc" where
  "titlePass M d =
     moveDown M 1
       (text_at M ''Competitive Intelligence Report'' None (no_opts\<lparr>align_center := True\<rparr>)
          (fontSize 24 d))"

definition tocLink :: "nat \<Rightarrow> string" where
  "tocLink index = ''#section'' @ show_nat (index + 1)"

definition tocEntry :: "metrics \<Rightarrow> nat \<times> string \<Rightarrow> doc \<Rightarrow> doc" where
  "tocEntry M e d =
     text_at M (snd e) None (no_opts\<lparr>link := Some (tocLink (fst e))\<rparr>) (fontSize 12 d)"

definition tocPass :: "metrics \<Rightarrow> string list \<Rightarrow> string \<Rightarrow> doc \<Rightarrow> doc" where
  "tocPass M sections format d =
     (if format \<noteq> ''presentation'' then
        moveDown M 1
          (fold (tocEntry M) (enumerate 0 sections)
             (moveDown M 0.5 (text_at M ''Table of Contents'' None no_opts (fontSize 18 d))))
      else d)"

text \<open>
  The two tests of the content loop: which lines are headers, and which anchor they get.
  The loop also assigns the header line to the variable \<^verbatim>\<open>currentSection\<close>, which is
  never read; it is not part of the model.
\<close>

definition isHeader :: "string list \<Rightarrow> string \<Rightarrow> bool" where
  "isHeader sections line = list_ex (\<lambda>section. js_includes line section) sections"

definition anchorName :: "string list \<Rightarrow> string \<Rightarrow> string" where
  "anchorName sections line =
     ''section'' @ show_int (findIndex (\<lambda>s. js_includes s line) sections + 1)"

text \<open>The bullet prefix of presentation lines, as the bytes of the source literal.\<close>

definition bullet :: string where
  "bullet = [CHR 0xC3, CHR 0xA2, CHR 0xE2, CHR 0x82, CHR 0xAC, CHR 0xC2, CHR 0xA2, CHR '' '']"

definition contentLine :: "metrics \<Rightarrow> string list \<Rightarrow> string \<Rightarrow> string \<Rightarrow> doc \<Rightarrow> doc" where
  "contentLine M sections format line d =
     (if isHeader sections line then
        moveDown M 1
          (text_at M line None (no_opts\<lparr>destination := Some (anchorName sections line)\<rparr>)
             (fontSize 18 (ensureSpace M 100 d)))
      else
        (let d1 = ensureSpace M 20 d
         in if format = ''presentation'' then text_at M (bullet @ line) None no_opts (fontSize 14 d1)
            else text_at M line None no_opts (fontSize 12 d1)))"

definition contentPass :: "metrics \<Rightarrow> string \<Rightarrow> string list \<Rightarrow> string \<Rightarrow> doc \<Rightarrow> doc" where
  "contentPass M analysisResult sections format d =
     fold (contentLine M sections format) (split_nl analysisResult) d"

text \<open>
  \<^verbatim>\<open>while (doc.bufferedPageRange().count < 15) doc.addPage()\<close>. The loop need not end, so
  its result is optional: \<open>None\<close> is a loop that runs forever.
\<close>

partial_function (option) padPages :: "doc \<Rightarrow> doc option" where
  "padPages d = (if bufferedPageCount d < 15 then padPages (addPage d) else Some d)"

declare padPages.simps [code]

definition footerText :: "nat \<Rightarrow> nat \<Rightarrow> string" where
  "footerText i pages = ''Page '' @ show_nat (i + 1) @ '' of '' @ show_nat pages"

text \<open>The footer loop over \<open>i = 0, ..., pages - 1\<close>; an exception of \<^verbatim>\<open>switchToPage\<close> ends it.\<close>

fun footerLoop :: "metrics \<Rightarrow> nat \<Rightarrow> nat list \<Rightarrow> doc \<Rightarrow> error + doc" where
  "footerLoop M pages [] d = Inr d"
| "footerLoop M pages (i # is) d =
     (case switchToPage i d of
        Inl e \<Rightarrow> Inl e
      | Inr d1 \<Rightarrow>
          footerLoop M pages is
            (text_at M (footerText i pages) (Some (pageHeight M - 50))
               (no_opts\<lparr>align_center := True\<rparr>) (fontSize 10 d1)))"

definition footerPass :: "metrics \<Rightarrow> doc \<Rightarrow> error + doc" where
  "footerPass M d =
     (let pages = bufferedPageCount d in footerLoop M pages [0..<pages] d)"

text \<open>The document after the title, the table of contents and the content lines.\<close>

definition layoutContent :: "metrics \<Rightarrow> string \<Rightarrow> string list \<Rightarrow> string \<Rightarrow> doc" where
  "layoutContent M analysisResult sections format =
     contentPass M analysisResult sections format
       (tocPass M sections format (titlePass M (newDocument False)))"

text \<open>
  \<open>generatePDF\<close>: the source constructs the document with \<^verbatim>\<open>{ size: 'A4', margin: 50 }\<close>,
  so pages are not buffered. The result is \<open>None\<close> when the padding loop never ends, an
  error when the promise is rejected, and the pages of the finished document otherwise.
\<close>

definition generatePDF :: "metrics \<Rightarrow> string \<Rightarrow> string list \<Rightarrow> string \<Rightarrow> (error + page list) option" where
  "generatePDF M analysisResult sections format =
     (case (if format = ''detailed'' then padPages (layoutContent M analysisResult sections format)
            else Some (layoutContent M analysisResult sections format)) of
        None \<Rightarrow> None
      | Some d \<Rightarrow>
          (case footerPass M d of
             Inl e \<Rightarrow> Some (Inl e)
           | Inr d' \<Rightarrow> Some (Inr (endDoc d'))))"

section \<open>The request handler\<close>

text \<open>
  The records of the source's data model. A competitor's data is either scraped or
  decoded from the cache.
\<close>

record ImageAnalysis =
  labels :: "string list"
  text_detected :: string
  logoDetection :: "string list"
  colorInfo :: string

record ImageData =
  url :: string
  localPath :: string
  analysis :: ImageAnalysis

record ScrapedData =
  companyName :: string
  productNames :: "string list"
  productDescriptions :: "string list"
  pricing :: "string list"
  contactInfo :: string
  socialMediaLinks :: "string list"
  newsHeadlines :: "string list"
  keyFeatures :: "string list"
  images :: "ImageData list"

text \<open>
  The request. \<^verbatim>\<open>req.body\<close> has the type \<^verbatim>\<open>any\<close>: it can be absent, and so can its
  fields. \<open>None\<close> for the body is a body that is \<^verbatim>\<open>null\<close> or \<^verbatim>\<open>undefined\<close>; \<open>None\<close> for
  \<open>competitors\<close> or \<open>reportSections\<close> is a field that is missing or not an array. The
  elements of the arrays are strings, and so is the format (a missing format reads
  \<^verbatim>\<open>undefined\<close> wherever it is printed or compared).
\<close>

record reqBody =
  competitors :: "string list option"
  reportSections :: "string list option"
  reportFormat :: string

record request =
  httpMethod :: string
  body :: "reqBody option"

text \<open>
  What the handler does to the outside world, in the order it does it: the calls on the
  response object, the frames pushed on the progress stream, and the calls to the cache,
  the scraper and the language model. The cache and scraper calls carry the index of
  the competitor they belong to.
\<close>

datatype effect =
    WriteHead nat "(string \<times> string) list"
  | Pipe
  | Progress string
  | RedisGet nat string
  | ScrapeWebsite nat string
  | RedisSet nat string string nat
  | GenerateAIAnalysis "ScrapedData list" "string list option" string
  | GeneratePDF string "string list" string
  | EndStream
  | EndWith "page list"
  | ConsoleError
  | Status500Json
  | SetHeader string "string list"
  | StatusEnd nat string

text \<open>
  The outside world answers the calls: the cache store, the competitor's web site, the
  language model and the JSON codec are parameters, each able to fail. \<open>cacheReply\<close>
  is what \<^verbatim>\<open>redis.get\<close> resolves to for the call of competitor \<open>i\<close>. When
  \<^verbatim>\<open>Promise.all\<close> rejects, the catch block of the handler runs a few microtasks later;
  \<open>catchLag\<close> is the number of effects that other tasks, resumed in the same turn, have
  before it runs.
\<close>

record env =
  cacheReply :: "nat \<Rightarrow> string \<Rightarrow> error + string option"
  scrapeReply :: "nat \<Rightarrow> string \<Rightarrow> error + ScrapedData"
  setReply :: "nat \<Rightarrow> string \<Rightarrow> error + unit"
  analysisReply :: "ScrapedData list \<Rightarrow> string list \<Rightarrow> string \<Rightarrow> error + string"
  parseJSON :: "string \<Rightarrow> error + ScrapedData"
  stringifyJSON :: "ScrapedData \<Rightarrow> string"
  fontMetrics :: metrics
  catchLag :: nat

definition startMessage :: string where
  "startMessage = ''Starting report generation...''"

definition analyzingMessage :: "nat \<Rightarrow> nat \<Rightarrow> string" where
  "analyzingMessage index n =
     ''Analyzing competitor '' @ show_nat (index + 1) @ '' of '' @ show_nat n @ ''...''"

definition cachedMessage :: "string \<Rightarrow> string" where
  "cachedMessage competitor = ''Using cached data for '' @ competitor @ ''...''"

definition analysisMessage :: string where
  "analysisMessage = ''Generating AI analysis...''"

definition pdfMessage :: string where
  "pdfMessage = ''Creating PDF report...''"

definition completeMessage :: string where
  "completeMessage = ''Report generation complete!''"

definition cacheKey :: "string \<Rightarrow> string" where
  "cacheKey competitor = ''competitor:'' @ competitor"

definition siteUrl :: "string \<Rightarrow> string" where
  "siteUrl competitor = ''https://www.'' @ competitor @ ''.com''"

text \<open>\<^verbatim>\<open>if (cachedData)\<close>: \<^verbatim>\<open>null\<close> and the empty string are falsy.\<close>

fun truthy :: "string option \<Rightarrow> bool" where
  "truthy None = False"
| "truthy (Some s) = (s \<noteq> [])"

text \<open>
  Each element of \<^verbatim>\<open>competitors.map(async ...)\<close> is a task. It runs up to its first
  \<^verbatim>\<open>await\<close> when it is created and is resumed once for each awaited call that
  completes; the state says which call it is waiting for.
\<close>

datatype task = AwaitGet | AwaitScrape | AwaitSet ScrapedData | Done ScrapedData | Failed error

text \<open>Resuming task \<open>i\<close>: the new state and what the task does before it waits again.\<close>

fun resumeTask :: "env \<Rightarrow> string \<Rightarrow> nat \<Rightarrow> task \<Rightarrow> task \<times> effect list" where
  "resumeTask E competitor i AwaitGet =
     (case cacheReply E i (cacheKey competitor) of
        Inl e \<Rightarrow> (Failed e, [])
      | Inr cachedData \<Rightarrow>
          (if truthy cachedData then
             (case parseJSON E (case cachedData of Some s \<Rightarrow> s | None \<Rightarrow> []) of
                Inl e \<Rightarrow> (Failed e, [Progress (cachedMessage competitor)])
              | Inr d \<Rightarrow> (Done d, [Progress (cachedMessage competitor)]))
           else (AwaitScrape, [ScrapeWebsite i (siteUrl competitor)])))"
| "resumeTask E competitor i AwaitScrape =
     (case scrapeReply E i (siteUrl competitor) of
        Inl e \<Rightarrow> (Failed e, [])
      | Inr scrapedData \<Rightarrow>
          (AwaitSet scrapedData,
           [RedisSet i (cacheKey competitor) (stringifyJSON E scrapedData) 86400]))"
| "resumeTask E competitor i (AwaitSet scrapedData) =
     (case setReply E i (cacheKey competitor) of
        Inl e \<Rightarrow> (Failed e, [])
      | Inr u \<Rightarrow> (Done scrapedData, []))"
| "resumeTask E competitor i (Done d) = (Done d, [])"
| "resumeTask E competitor i (Failed e) = (Failed e, [])"

text \<open>\<^verbatim>\<open>Promise.all\<close> resolves with every task's value once every task is done.\<close>

fun allDone :: "task list \<Rightarrow> ScrapedData list option" where
  "allDone [] = Some []"
| "allDone (Done d # ts) = (case allDone ts of None \<Rightarrow> None | Some ds \<Rightarrow> Some (d # ds))"
| "allDone (t # ts) = None"

datatype settled = Resolved "ScrapedData list" | Rejected error | Pending

text \<open>
  The order in which the awaited calls complete is not fixed by the program: it is the
  schedule, a list of task indices, each entry resuming that task once. \<open>awaitAll\<close>
  follows the schedule until \<^verbatim>\<open>Promise.all\<close> settles: resolved when all tasks are done,
  rejected at the first task that fails, and pending when the schedule ends before that
  (a call that never completes). It returns what is left of the schedule and the tasks.
\<close>

fun awaitAll :: "env \<Rightarrow> string list \<Rightarrow> nat list \<Rightarrow> task list
    \<Rightarrow> settled \<times> effect list \<times> nat list \<times> task list" where
  "awaitAll E cs [] ts =
     (case allDone ts of Some ds \<Rightarrow> (Resolved ds, [], [], ts) | None \<Rightarrow> (Pending, [], [], ts))"
| "awaitAll E cs (i # sched) ts =
     (case allDone ts of
        Some ds \<Rightarrow> (Resolved ds, [], i # sched, ts)
      | None \<Rightarrow>
          (if i < length ts then
             (case resumeTask E (cs ! i) i (ts ! i) of
                (Failed e, es) \<Rightarrow> (Rejected e, es, sched, ts[i := Failed e])
              | (t, es) \<Rightarrow>
                  (case awaitAll E cs sched (ts[i := t]) of
                     (st, es', sched', ts') \<Rightarrow> (st, es @ es', sched', ts')))
           else awaitAll E cs sched ts))"

text \<open>After a rejection the other tasks are not cancelled: they go on as scheduled.\<close>

fun drain :: "env \<Rightarrow> string list \<Rightarrow> nat list \<Rightarrow> task list \<Rightarrow> effect list" where
  "drain E cs [] ts = []"
| "drain E cs (i # sched) ts =
     (if i < length ts then
        (case resumeTask E (cs ! i) i (ts ! i) of
           (t, es) \<Rightarrow> es @ drain E cs sched (ts[i := t]))
      else drain E cs sched ts)"

definition sseHeaders :: "(string \<times> string) list" where
  "sseHeaders = [(''Content-Type'', ''text/event-stream''), (''Cache-Control'', ''no-cache''),
     (''Connection'', ''keep-alive'')]"

text \<open>The headers of the final response; the content length is left out of the model.\<close>

definition pdfHeaders :: "(string \<times> string) list" where
  "pdfHeaders = [(''Content-Type'', ''application/pdf''),
     (''Content-Disposition'', ''attachment; filename=competitive_intelligence_report.pdf'')]"

text \<open>
  The catch block: \<^verbatim>\<open>console.error\<close> and \<^verbatim>\<open>res.status(500).json(...)\<close>. The trace records
  the two calls.
\<close>

definition catchError :: "effect list" where
  "catchError = [ConsoleError, Status500Json]"

text \<open>
  The synchronous part of \<^verbatim>\<open>competitors.map(async ...)\<close>: each task pushes its progress
  frame and sends its cache read before the next task is created.
\<close>

definition dispatch :: "string list \<Rightarrow> effect list" where
  "dispatch cs =
     concat (map (\<lambda>(index, competitor).
        [Progress (analyzingMessage index (length cs)), RedisGet index (cacheKey competitor)])
       (enumerate 0 cs))"

text \<open>
  The end of the \<^verbatim>\<open>try\<close> block: \<^verbatim>\<open>res.writeHead(200, ...)\<close> and \<^verbatim>\<open>res.end(pdfBuffer)\<close>.
  \<^verbatim>\<open>writeHead\<close> throws when the head of the response has been written before, and the
  exception is caught by the handler's catch block; \<open>headSent\<close> says whether it has.
\<close>

definition sendPdf :: "bool \<Rightarrow> page list \<Rightarrow> effect list" where
  "sendPdf headSent pdfBuffer =
     WriteHead 200 pdfHeaders # (if headSent then catchError else [EndWith pdfBuffer])"

text \<open>
  After a rejection the catch block runs among the effects of the tasks that go on:
  after the first \<open>lag\<close> of them.
\<close>

definition catchAmong :: "nat \<Rightarrow> effect list \<Rightarrow> effect list" where
  "catchAmong lag es = take lag es @ catchError @ drop lag es"

text \<open>
  \<^verbatim>\<open>generateAIAnalysis\<close> builds its prompt with \<^verbatim>\<open>sections.join\<close>, which throws when the
  sections are not an array; otherwise the language model answers.
\<close>

definition generateAIAnalysis :: "env \<Rightarrow> ScrapedData list \<Rightarrow> string list option \<Rightarrow> string
    \<Rightarrow> error + string" where
  "generateAIAnalysis E competitorData sections format =
     (case sections of
        None \<Rightarrow> Inl (Thrown ''TypeError'')
      | Some ss \<Rightarrow> analysisReply E competitorData ss format)"

text \<open>
  The handler after \<^verbatim>\<open>Promise.all\<close> has resolved with the competitor data. The head of
  the response was written when the progress channel was opened, so the final
  \<^verbatim>\<open>writeHead\<close> finds it sent.
\<close>

definition afterData :: "env \<Rightarrow> reqBody \<Rightarrow> ScrapedData list \<Rightarrow> effect list" where
  "afterData E b competitorData =
     [Progress analysisMessage,
      GenerateAIAnalysis competitorData (reportSections b) (reportFormat b)] @
     (case generateAIAnalysis E competitorData (reportSections b) (reportFormat b) of
        Inl e \<Rightarrow> catchError
      | Inr analysisResult \<Rightarrow>
          (case reportSections b of
             None \<Rightarrow> catchError
           | Some sections \<Rightarrow>
               [Progress pdfMessage, GeneratePDF analysisResult sections (reportFormat b)] @
               (case generatePDF (fontMetrics E) analysisResult sections (reportFormat b) of
                  None \<Rightarrow> []
                | Some (Inl e) \<Rightarrow> catchError
                | Some (Inr pdfBuffer) \<Rightarrow>
                    [Progress completeMessage, EndStream] @ sendPdf True pdfBuffer)))"

text \<open>
  \<open>handler\<close>: the trace of a request, given the outside world and the schedule. The
  response object is modelled as the list of calls made on it. A body that is absent
  makes the destructuring at the head of the \<^verbatim>\<open>try\<close> block throw, before anything is
  written; competitors that are not an array make \<^verbatim>\<open>competitors.map\<close> throw, after the
  start event.
\<close>

definition handler :: "env \<Rightarrow> nat list \<Rightarrow> request \<Rightarrow> effect list" where
  "handler E sched req =
     (if httpMethod req = ''POST'' then
        (case body req of
           None \<Rightarrow> catchError
         | Some b \<Rightarrow>
             [WriteHead 200 sseHeaders, Pipe, Progress startMessage] @
             (case competitors b of
                None \<Rightarrow> catchError
              | Some cs \<Rightarrow>
                  dispatch cs @
                  (case awaitAll E cs sched (replicate (length cs) AwaitGet) of
                     (Pending, es, sched', ts) \<Rightarrow> es
                   | (Rejected e, es, sched', ts) \<Rightarrow>
                       es @ catchAmong (catchLag E) (drain E cs sched' ts)
                   | (Resolved competitorData, es, sched', ts) \<Rightarrow>
                       es @ afterData E b competitorData)))
      else [SetHeader ''Allow'' [''POST''],
            StatusEnd 405 (''Method '' @ httpMethod req @ '' Not Allowed'')])"

text \<open>The messages of the progress events of a trace, in order.\<close>

fun progress :: "effect list \<Rightarrow> string list" where
  "progress [] = []"
| "progress (Progress m # es) = m # progress es"
| "progress (e # es) = progress es"

section \<open>Notions used in the statements\<close>

text \<open>The blocks of a document in reading order, over all its pages.\<close>

definition allBlocks :: "doc \<Rightarrow> block list" where
  "allBlocks d = concat (endDoc d)"

text \<open>
  The state of a document that does not buffer pages: the buffer holds exactly the
  current page.
\<close>

definition unbuffered :: "doc \<Rightarrow> bool" where
  "unbuffered d \<longleftrightarrow> \<not> bufferPages d \<and> length (pageBuffer d) = 1 \<and> current d = 0"

text \<open>The blocks that the passes of \<open>generatePDF\<close> write.\<close>

definition titleBlock :: block where
  "titleBlock = \<lparr>btext = ''Competitive Intelligence Report'', bsize = 24, bcenter = True,
     blink = None, bdest = None\<rparr>"

definition tocHeading :: block where
  "tocHeading = \<lparr>btext = ''Table of Contents'', bsize = 18, bcenter = False,
     blink = None, bdest = None\<rparr>"

definition tocBlock :: "nat \<times> string \<Rightarrow> block" where
  "tocBlock e = \<lparr>btext = snd e, bsize = 12, bcenter = False,
     blink = Some (''#section'' @ show_nat (fst e + 1)), bdest = None\<rparr>"

definition lineBlock :: "string list \<Rightarrow> string \<Rightarrow> string \<Rightarrow> block" where
  "lineBlock sections format line =
     (if isHeader sections line then
        \<lparr>btext = line, bsize = 18, bcenter = False, blink = None,
         bdest = Some (anchorName sections line)\<rparr>
      else if format = ''presentation'' then
        \<lparr>btext = bullet @ line, bsize = 14, bcenter = False, blink = None, bdest = None\<rparr>
      else \<lparr>btext = line, bsize = 12, bcenter = False, blink = None, bdest = None\<rparr>)"

text \<open>
  Metrics for the examples: an A4 page (841.89 points high), the line height of
  Helvetica (1.156 times the font size), and strings short enough to stay on one line;
  the empty string takes no line.
\<close>

definition a4_helvetica :: metrics where
  "a4_helvetica = \<lparr>pageHeight = 841.89, lineHeight = (\<lambda>s. s * 1.156),
     wrapCount = (\<lambda>s str. if str = [] then 0 else 1)\<rparr>"

text \<open>
  The effects a task of competitor \<open>c\<close> at index \<open>i\<close> can have when it is resumed, and
  the scraper calls and cache writes that belong to index \<open>i\<close>.
\<close>

definition taskEffect :: "nat \<Rightarrow> string \<Rightarrow> effect \<Rightarrow> bool" where
  "taskEffect i c e \<longleftrightarrow>
     e = Progress (cachedMessage c) \<or> e = ScrapeWebsite i (siteUrl c) \<or>
     (\<exists>v. e = RedisSet i (cacheKey c) v 86400)"

fun fetches :: "nat \<Rightarrow> effect \<Rightarrow> bool" where
  "fetches i (ScrapeWebsite j u) = (j = i)"
| "fetches i (RedisSet j k v t) = (j = i)"
| "fetches i e = False"

text \<open>Competitor \<open>i\<close> is served from the cache: the cache read succeeds with a truthy value.\<close>

definition cacheHit :: "env \<Rightarrow> string list \<Rightarrow> nat \<Rightarrow> bool" where
  "cacheHit E cs i =
     (case cacheReply E i (cacheKey (cs ! i)) of Inl e \<Rightarrow> False | Inr c \<Rightarrow> truthy c)"

text \<open>The tasks that still wait for a cache read that will be a hit.\<close>

definition pendingHits :: "env \<Rightarrow> string list \<Rightarrow> task list \<Rightarrow> nat list" where
  "pendingHits E cs ts = filter (\<lambda>i. ts ! i = AwaitGet \<and> cacheHit E cs i) [0..<length ts]"

text \<open>
  An outside world for the examples. The scraper returns the record \<open>exampleData\<close>,
  whose JSON text is \<open>exampleJSON\<close>; the codec is given on this record only. The
  cache is empty (\<open>coldEnv\<close>), holds the text for every key (\<open>warmEnv\<close>), or holds
  it for the second competitor only (\<open>mixedEnv\<close>). Every other call succeeds, the
  language model returns the empty text, and the catch block runs at once.
\<close>

definition exampleData :: ScrapedData where
  "exampleData = \<lparr>companyName = ''Acme'', productNames = [], productDescriptions = [],
     pricing = [], contactInfo = [], socialMediaLinks = [], newsHeadlines = [],
     keyFeatures = [], images = []\<rparr>"

definition quoted :: "string \<Rightarrow> string" where
  "quoted s = CHR 0x22 # s @ [CHR 0x22]"

definition exampleJSON :: string where
  "exampleJSON =
     ''{'' @ quoted ''companyName'' @ '':'' @ quoted ''Acme'' @ '','' @
     quoted ''productNames'' @ '':[],'' @ quoted ''productDescriptions'' @ '':[],'' @
     quoted ''pricing'' @ '':[],'' @ quoted ''contactInfo'' @ '':'' @ quoted [] @ '','' @
     quoted ''socialMediaLinks'' @ '':[],'' @ quoted ''newsHeadlines'' @ '':[],'' @
     quoted ''keyFeatures'' @ '':[],'' @ quoted ''images'' @ '':[]}''"

definition coldEnv :: env where
  "coldEnv = \<lparr>cacheReply = (\<lambda>i k. Inr None), scrapeReply = (\<lambda>i u. Inr exampleData),
     setReply = (\<lambda>i k. Inr ()), analysisReply = (\<lambda>ds ss f. Inr []),
     parseJSON = (\<lambda>s. if s = exampleJSON then Inr exampleData else Inl (Thrown ''SyntaxError'')),
     stringifyJSON = (\<lambda>d. exampleJSON),
     fontMetrics = a4_helvetica, catchLag = 0\<rparr>"

definition warmEnv :: env where
  "warmEnv = coldEnv\<lparr>cacheReply := (\<lambda>i k. Inr (Some exampleJSON))\<rparr>"

definition mixedEnv :: env where
  "mixedEnv = coldEnv\<lparr>cacheReply := (\<lambda>i k. if i = 1 then Inr (Some exampleJSON) else Inr None)\<rparr>"

text \<open>
  The states a task can be in when its cache read is a hit with the string \<open>s\<close>: it
  never waits for the scraper or for a cache write.
\<close>

definition served :: "env \<Rightarrow> string \<Rightarrow> task \<Rightarrow> bool" where
  "served E s t \<longleftrightarrow> t = AwaitGet \<or> (\<exists>d. t = Done d \<and> parseJSON E s = Inr d) \<or> (\<exists>e. t = Failed e)"

text \<open>
  The requests of the examples: one competitor, two competitors, one competitor with
  the format \<open>detailed\<close>, and a body with an empty competitor list and the format
  \<open>xml\<close>; and the document of an empty analysis with the one section
  \<open>Market Overview\<close>.
\<close>

definition acmeBody :: reqBody where
  "acmeBody = \<lparr>competitors = Some [''acme''], reportSections = Some [''Market Overview''],
     reportFormat = ''summary''\<rparr>"

definition acmeRequest :: request where
  "acmeRequest = \<lparr>httpMethod = ''POST'', body = Some acmeBody\<rparr>"

definition duoRequest :: request where
  "duoRequest = \<lparr>httpMethod = ''POST'',
     body = Some (acmeBody\<lparr>competitors := Some [''acme'', ''globex'']\<rparr>)\<rparr>"

definition detailedRequest :: request where
  "detailedRequest = \<lparr>httpMethod = ''POST'',
     body = Some (acmeBody\<lparr>reportFormat := ''detailed''\<rparr>)\<rparr>"

definition emptyXmlRequest :: request where
  "emptyXmlRequest = \<lparr>httpMethod = ''POST'',
     body = Some (acmeBody\<lparr>competitors := Some [], reportFormat := ''xml''\<rparr>)\<rparr>"

definition acmePdf :: "page list" where
  "acmePdf = [[titleBlock, tocHeading, tocBlock (0, ''Market Overview''),
       \<lparr>btext = [], bsize = 12, bcenter = False, blink = None, bdest = None\<rparr>],
      [\<lparr>btext = ''Page 1 of 1'', bsize = 10, bcenter = True, blink = None, bdest = None\<rparr>]]"

section \<open>Properties of the layout engine\<close>


lemma js_includes_sublist: "js_includes hay needle \<longleftrightarrow> sublist needle hay"
  by (induction hay) (simp_all add: sublist_Cons_right)

lemma addPage_unbuffered:
  "unbuffered d \<Longrightarrow> unbuffered (addPage d)"
  by (simp add: unbuffered_def addPage_def flushPages_def Let_def)

lemma addPage_blocks: "unbuffered d \<Longrightarrow> allBlocks (addPage d) = allBlocks d"
  by (simp add: unbuffered_def allBlocks_def endDoc_def addPage_def flushPages_def Let_def)

lemma addPage_fontSz: "fontSz (addPage d) = fontSz d"
  by (simp add: addPage_def flushPages_def Let_def)

lemma addPage_flushed: "unbuffered d \<Longrightarrow> length (flushed (addPage d)) = Suc (length (flushed d))"
  by (simp add: unbuffered_def addPage_def flushPages_def Let_def)

lemma flow_unbuffered:
  "unbuffered d \<Longrightarrow> unbuffered (flow M n d) \<and> allBlocks (flow M n d) = allBlocks d
     \<and> fontSz (flow M n d) = fontSz d \<and> length (flushed d) \<le> length (flushed (flow M n d))"
proof (induction n arbitrary: d)
  case 0
  then show ?case by simp
next
  case (Suc n)
  let ?d1 = "d\<lparr>docY := docY d + lineHeight M (fontSz d)\<rparr>"
  have u1: "unbuffered ?d1" using Suc.prems by (simp add: unbuffered_def)
  have b1: "allBlocks ?d1 = allBlocks d" by (simp add: allBlocks_def endDoc_def)
  have u2: "unbuffered (addPage ?d1)" using u1 by (rule addPage_unbuffered)
  have b2: "allBlocks (addPage ?d1) = allBlocks d"
    using addPage_blocks[OF u1] b1 by simp
  have f2: "length (flushed (addPage ?d1)) = Suc (length (flushed d))"
    using addPage_flushed[OF u1] by simp
  show ?case
    using Suc.IH[OF u1] Suc.IH[OF u2] b1 b2 f2
    by (simp add: Let_def addPage_fontSz)
qed

lemma writeBlock_unbuffered:
  assumes "unbuffered d"
  shows "unbuffered (writeBlock b d) \<and> allBlocks (writeBlock b d) = allBlocks d @ [b]
    \<and> fontSz (writeBlock b d) = fontSz d \<and> flushed (writeBlock b d) = flushed d"
proof -
  from assms obtain p where p: "pageBuffer d = [p]" and c: "current d = 0"
    by (cases "pageBuffer d") (auto simp: unbuffered_def)
  show ?thesis using assms p c
    by (simp add: unbuffered_def writeBlock_def allBlocks_def endDoc_def)
qed

lemma text_at_unbuffered:
  assumes "unbuffered d"
  shows "unbuffered (text_at M str pos os d)
    \<and> allBlocks (text_at M str pos os d) = allBlocks d @
        [\<lparr>btext = str, bsize = fontSz d, bcenter = align_center os, blink = link os,
          bdest = destination os\<rparr>]
    \<and> fontSz (text_at M str pos os d) = fontSz d
    \<and> length (flushed d) \<le> length (flushed (text_at M str pos os d))"
proof -
  define d0 where "d0 = (case pos of None \<Rightarrow> d | Some y \<Rightarrow> d\<lparr>docY := y\<rparr>)"
  define d1 where "d1 = (if maxY M < docY d0 \<or> maxY M < docY d0 + lineHeight M (fontSz d0)
                then addPage d0 else d0)"
  have u0: "unbuffered d0" and b0: "allBlocks d0 = allBlocks d" and f0: "fontSz d0 = fontSz d"
    and l0: "flushed d0 = flushed d"
    using assms by (auto simp: d0_def unbuffered_def allBlocks_def endDoc_def split: option.splits)
  have u1: "unbuffered d1" and b1: "allBlocks d1 = allBlocks d" and f1: "fontSz d1 = fontSz d"
    and l1: "length (flushed d) \<le> length (flushed d1)"
    using u0 b0 f0 l0 addPage_flushed[OF u0] addPage_unbuffered[OF u0] addPage_blocks[OF u0]
    by (auto simp: d1_def addPage_fontSz)
  have t: "text_at M str pos os d = flow M (wrapCount M (fontSz d1) str)
     (writeBlock \<lparr>btext = str, bsize = fontSz d1, bcenter = align_center os, blink = link os,
          bdest = destination os\<rparr> d1)"
    by (simp add: text_at_def d0_def d1_def Let_def)
  let ?b = "\<lparr>btext = str, bsize = fontSz d1, bcenter = align_center os, blink = link os,
          bdest = destination os\<rparr>"
  have w: "unbuffered (writeBlock ?b d1)" "allBlocks (writeBlock ?b d1) = allBlocks d1 @ [?b]"
     "fontSz (writeBlock ?b d1) = fontSz d1" "flushed (writeBlock ?b d1) = flushed d1"
    using writeBlock_unbuffered[OF u1, of ?b] by simp_all
  show ?thesis
    unfolding t
    using flow_unbuffered[OF w(1), of M "wrapCount M (fontSz d1) str"] w(2-4) b1 f1 l1
    by simp
qed


lemma newDocument_unbuffered:
  "unbuffered (newDocument False)" "allBlocks (newDocument False) = []"
  "flushed (newDocument False) = []"
  by (simp_all add: newDocument_def addPage_def flushPages_def unbuffered_def allBlocks_def
      endDoc_def Let_def)

lemma fontSize_unbuffered:
  "unbuffered d \<Longrightarrow> unbuffered (fontSize s d)" "allBlocks (fontSize s d) = allBlocks d"
  "fontSz (fontSize s d) = s" "flushed (fontSize s d) = flushed d"
  by (simp_all add: fontSize_def unbuffered_def allBlocks_def endDoc_def)

lemma moveDown_unbuffered:
  "unbuffered d \<Longrightarrow> unbuffered (moveDown M n d)" "allBlocks (moveDown M n d) = allBlocks d"
  "flushed (moveDown M n d) = flushed d"
  by (simp_all add: moveDown_def unbuffered_def allBlocks_def endDoc_def)

lemma ensureSpace_unbuffered:
  "unbuffered d \<Longrightarrow> unbuffered (ensureSpace M n d)"
  "unbuffered d \<Longrightarrow> allBlocks (ensureSpace M n d) = allBlocks d"
  by (simp_all add: ensureSpace_def addPage_unbuffered addPage_blocks)

lemma titlePass_blocks:
  assumes "unbuffered d"
  shows "unbuffered (titlePass M d)" "allBlocks (titlePass M d) = allBlocks d @ [titleBlock]"
  using text_at_unbuffered[OF fontSize_unbuffered(1)[OF assms, of 24], of M
      "''Competitive Intelligence Report''" None "no_opts\<lparr>align_center := True\<rparr>"]
  by (simp_all add: titlePass_def moveDown_unbuffered fontSize_unbuffered titleBlock_def no_opts_def)

lemma tocEntry_blocks:
  assumes "unbuffered d"
  shows "unbuffered (tocEntry M e d) \<and> allBlocks (tocEntry M e d) = allBlocks d @ [tocBlock e]"
  using text_at_unbuffered[OF fontSize_unbuffered(1)[OF assms, of 12], of M "snd e" None
      "no_opts\<lparr>link := Some (tocLink (fst e))\<rparr>"]
  by (simp add: tocEntry_def fontSize_unbuffered tocBlock_def tocLink_def no_opts_def)

lemma fold_blocks:
  assumes step: "\<And>x d. unbuffered d \<Longrightarrow> unbuffered (f x d) \<and> allBlocks (f x d) = allBlocks d @ [g x]"
  shows "unbuffered d \<Longrightarrow>
    unbuffered (fold f xs d) \<and> allBlocks (fold f xs d) = allBlocks d @ map g xs"
proof (induction xs arbitrary: d)
  case Nil
  then show ?case by simp
next
  case (Cons x xs)
  from step[OF Cons.prems, of x] Cons.IH[of "f x d"] show ?case by simp
qed

lemma tocPass_blocks:
  assumes "unbuffered d"
  shows "unbuffered (tocPass M sections format d)"
    "allBlocks (tocPass M sections format d) = allBlocks d @
       (if format = ''presentation'' then [] else tocHeading # map tocBlock (enumerate 0 sections))"
proof -
  let ?h = "moveDown M 0.5 (text_at M ''Table of Contents'' None no_opts (fontSize 18 d))"
  have h: "unbuffered ?h" "allBlocks ?h = allBlocks d @ [tocHeading]"
    using text_at_unbuffered[OF fontSize_unbuffered(1)[OF assms, of 18], of M
        "''Table of Contents''" None no_opts]
    by (simp_all add: moveDown_unbuffered fontSize_unbuffered tocHeading_def no_opts_def)
  have f: "unbuffered (fold (tocEntry M) (enumerate 0 sections) ?h)
    \<and> allBlocks (fold (tocEntry M) (enumerate 0 sections) ?h)
        = allBlocks ?h @ map tocBlock (enumerate 0 sections)"
    by (rule fold_blocks[OF tocEntry_blocks h(1)])
  show "unbuffered (tocPass M sections format d)"
    using assms f by (simp add: tocPass_def moveDown_unbuffered)
  show "allBlocks (tocPass M sections format d) = allBlocks d @
       (if format = ''presentation'' then [] else tocHeading # map tocBlock (enumerate 0 sections))"
    using f h(2) by (simp add: tocPass_def moveDown_unbuffered)
qed

lemma contentLine_blocks:
  assumes "unbuffered d"
  shows "unbuffered (contentLine M sections format line d)
    \<and> allBlocks (contentLine M sections format line d) = allBlocks d @ [lineBlock sections format line]"
proof -
  have e: "unbuffered (ensureSpace M n d)" "allBlocks (ensureSpace M n d) = allBlocks d" for n
    using assms by (simp_all add: ensureSpace_unbuffered)
  show ?thesis
    using
      text_at_unbuffered[OF fontSize_unbuffered(1)[OF e(1)[of 100], of 18], of M line None
        "no_opts\<lparr>destination := Some (anchorName sections line)\<rparr>"]
      text_at_unbuffered[OF fontSize_unbuffered(1)[OF e(1)[of 20], of 14], of M "bullet @ line" None no_opts]
      text_at_unbuffered[OF fontSize_unbuffered(1)[OF e(1)[of 20], of 12], of M line None no_opts]
      e(2)
    by (simp add: contentLine_def lineBlock_def Let_def moveDown_unbuffered fontSize_unbuffered
        no_opts_def)
qed

lemma layoutContent_blocks:
  "unbuffered (layoutContent M analysisResult sections format)"
  "allBlocks (layoutContent M analysisResult sections format) =
     titleBlock #
     (if format = ''presentation'' then [] else tocHeading # map tocBlock (enumerate 0 sections)) @
     map (lineBlock sections format) (split_nl analysisResult)"
proof -
  let ?t = "titlePass M (newDocument False)"
  let ?c = "tocPass M sections format ?t"
  have t: "unbuffered ?t" "allBlocks ?t = [titleBlock]"
    using titlePass_blocks[OF newDocument_unbuffered(1), of M]
    by (simp_all add: newDocument_unbuffered)
  have c: "unbuffered ?c" "allBlocks ?c = titleBlock #
     (if format = ''presentation'' then [] else tocHeading # map tocBlock (enumerate 0 sections))"
    using tocPass_blocks[OF t(1), of M sections format] t(2) by simp_all
  have f: "unbuffered (fold (contentLine M sections format) (split_nl analysisResult) ?c)
    \<and> allBlocks (fold (contentLine M sections format) (split_nl analysisResult) ?c)
        = allBlocks ?c @ map (lineBlock sections format) (split_nl analysisResult)"
    by (rule fold_blocks[OF contentLine_blocks c(1)])
  show "unbuffered (layoutContent M analysisResult sections format)"
    using f by (simp add: layoutContent_def contentPass_def)
  show "allBlocks (layoutContent M analysisResult sections format) =
     titleBlock #
     (if format = ''presentation'' then [] else tocHeading # map tocBlock (enumerate 0 sections)) @
     map (lineBlock sections format) (split_nl analysisResult)"
    using f c(2) by (simp add: layoutContent_def contentPass_def)
qed

lemma padPages_Some:
  "padPages d = Some d' \<Longrightarrow> bufferPages d \<or> 15 \<le> bufferedPageCount d"
proof (rule padPages.raw_induct[where P = "\<lambda>x y. bufferPages x \<or> 15 \<le> bufferedPageCount x"])
  fix f x y
  assume IH: "\<And>x y. f x = Some y \<Longrightarrow> bufferPages x \<or> 15 \<le> bufferedPageCount x"
    and eq: "(if bufferedPageCount x < 15 then f (addPage x) else Some x) = Some y"
  show "bufferPages x \<or> 15 \<le> bufferedPageCount x"
  proof (cases "bufferedPageCount x < 15")
    case True
    with eq have "f (addPage x) = Some y" by simp
    from IH[OF this] show ?thesis
      by (auto simp: addPage_def flushPages_def bufferedPageCount_def Let_def split: if_splits)
  next
    case False
    then show ?thesis by simp
  qed
qed

lemma padPages_unbuffered: "unbuffered d \<Longrightarrow> padPages d = None"
proof (rule ccontr)
  assume u: "unbuffered d" and "padPages d \<noteq> None"
  then obtain d' where "padPages d = Some d'" by auto
  from padPages_Some[OF this] u show False
    by (simp add: unbuffered_def bufferedPageCount_def)
qed

lemma generatePDF_detailed:
  "generatePDF M analysisResult sections ''detailed'' = None"
  using padPages_unbuffered[OF layoutContent_blocks(1), of M analysisResult sections "''detailed''"]
  by (simp add: generatePDF_def)

text \<open>With buffered pages the same loop ends, with at least 15 pages in the buffer.\<close>

lemma padPages_buffered:
  "bufferPages d \<Longrightarrow>
     \<exists>d'. padPages d = Some d' \<and> bufferedPageCount d' = max 15 (bufferedPageCount d)"
proof (induction "15 - bufferedPageCount d" arbitrary: d)
  case 0
  then have "padPages d = Some d" by (subst padPages.simps) simp
  with 0 show ?case by simp
next
  case (Suc n)
  have b: "bufferPages (addPage d)" and c: "bufferedPageCount (addPage d) = Suc (bufferedPageCount d)"
    using Suc.prems by (simp_all add: addPage_def bufferedPageCount_def Let_def)
  from Suc.hyps(2) c have "n = 15 - bufferedPageCount (addPage d)" by simp
  from Suc.hyps(1)[OF this b] obtain d' where
    d': "padPages (addPage d) = Some d'" "bufferedPageCount d' = max 15 (bufferedPageCount (addPage d))"
    by blast
  from Suc.hyps(2) have lt: "bufferedPageCount d < 15" by simp
  then have "padPages d = padPages (addPage d)" by (subst padPages.simps) simp
  with d' c lt show ?case by simp
qed

lemma footerPass_unbuffered:
  assumes "unbuffered d"
  shows "footerPass M d =
    (if flushed d = [] then
       Inr (text_at M (footerText 0 1) (Some (pageHeight M - 50)) (no_opts\<lparr>align_center := True\<rparr>)
              (fontSize 10 d))
     else Inl (OutOfBounds 0))"
proof -
  have eq: "d\<lparr>current := 0\<rparr> = d" using assms by (simp add: unbuffered_def)
  show ?thesis
    using assms
    by (simp add: footerPass_def bufferedPageCount_def unbuffered_def switchToPage_def eq)
qed


lemma generatePDF_returns:
  assumes "generatePDF M analysisResult sections format = Some (Inr pages)"
  shows "format \<noteq> ''detailed''"
    "concat pages = allBlocks (layoutContent M analysisResult sections format) @
       [\<lparr>btext = ''Page 1 of 1'', bsize = 10, bcenter = True, blink = None, bdest = None\<rparr>]"
proof -
  let ?L = "layoutContent M analysisResult sections format"
  have u: "unbuffered ?L" by (rule layoutContent_blocks(1))
  show nd: "format \<noteq> ''detailed''"
    using assms generatePDF_detailed[of M analysisResult sections] by auto
  let ?F = "text_at M (footerText 0 1) (Some (pageHeight M - 50)) (no_opts\<lparr>align_center := True\<rparr>)
              (fontSize 10 ?L)"
  from assms nd have "footerPass M ?L = Inr ?F \<and> pages = endDoc ?F"
    by (auto simp add: generatePDF_def footerPass_unbuffered[OF u] split: if_splits)
  then have "concat pages = allBlocks ?F" by (simp add: allBlocks_def)
  also have "\<dots> = allBlocks ?L @
       [\<lparr>btext = ''Page 1 of 1'', bsize = 10, bcenter = True, blink = None, bdest = None\<rparr>]"
    using text_at_unbuffered[OF fontSize_unbuffered(1)[OF u, of 10], of M "footerText 0 1"
        "Some (pageHeight M - 50)" "no_opts\<lparr>align_center := True\<rparr>"]
    by (simp add: fontSize_unbuffered no_opts_def footerText_def digit_def show_nat.simps)
  finally show "concat pages = allBlocks ?L @
       [\<lparr>btext = ''Page 1 of 1'', bsize = 10, bcenter = True, blink = None, bdest = None\<rparr>]" .
qed

lemma show_nat_nonempty: "show_nat n \<noteq> []"
  by (subst show_nat.simps) simp

lemma digit_pos: "0 < n \<Longrightarrow> n < 10 \<Longrightarrow> digit n \<noteq> CHR ''0''"
proof -
  assume "0 < n" "n < 10"
  then have "n \<in> {1,2,3,4,5,6,7,8,9}" by auto
  then show ?thesis by (auto simp: digit_def)
qed

lemma show_nat_zero: "show_nat n = ''0'' \<longleftrightarrow> n = 0"
proof (cases "n < 10")
  case True
  then show ?thesis
    using digit_pos[of n] by (cases "n = 0") (simp_all add: digit_def show_nat.simps)
next
  case False
  have "length (show_nat n) = length (show_nat (n div 10)) + 1"
    using False by (subst show_nat.simps) simp
  moreover have "0 < length (show_nat (n div 10))" using show_nat_nonempty by blast
  ultimately have "length (show_nat n) \<noteq> length ''0''" by simp
  then show ?thesis using False by auto
qed

lemma findIndexFrom_none: "\<forall>x\<in>set xs. \<not> p x \<Longrightarrow> findIndexFrom k p xs = - 1"
  by (induction xs arbitrary: k) simp_all

lemma findIndexFrom_first:
  "i < length xs \<Longrightarrow> p (xs ! i) \<Longrightarrow> \<forall>j<i. \<not> p (xs ! j) \<Longrightarrow> findIndexFrom k p xs = k + int i"
proof (induction xs arbitrary: k i)
  case Nil
  then show ?case by simp
next
  case (Cons x xs)
  show ?case
  proof (cases i)
    case 0
    with Cons.prems show ?thesis by simp
  next
    case (Suc i')
    have nx: "\<not> p x" using Cons.prems(3) Suc by force
    have "findIndexFrom (k + 1) p xs = k + 1 + int i'"
      using Cons.prems Suc by (intro Cons.IH) auto
    with nx Suc show ?thesis by simp
  qed
qed

lemma first_index_exists:
  "\<exists>x\<in>set xs. p x \<Longrightarrow> \<exists>i<length xs. p (xs ! i) \<and> (\<forall>j<i. \<not> p (xs ! j))"
proof -
  assume "\<exists>x\<in>set xs. p x"
  then have ex: "\<exists>i. i < length xs \<and> p (xs ! i)" by (metis in_set_conv_nth)
  define i where "i = (LEAST i. i < length xs \<and> p (xs ! i))"
  have "i < length xs \<and> p (xs ! i)" unfolding i_def using ex by (rule LeastI_ex)
  moreover have "\<forall>j<i. \<not> p (xs ! j)"
  proof (intro allI impI)
    fix j assume "j < i"
    then have "\<not> (j < length xs \<and> p (xs ! j))" unfolding i_def by (rule not_less_Least)
    moreover have "j < length xs" using \<open>j < i\<close> \<open>i < length xs \<and> p (xs ! i)\<close> by simp
    ultimately show "\<not> p (xs ! j)" by simp
  qed
  ultimately show ?thesis by blast
qed


lemma isHeader_sublist:
  "isHeader sections line \<longleftrightarrow> (\<exists>section\<in>set sections. sublist section line)"
  by (simp add: isHeader_def list_ex_iff js_includes_sublist)

lemma anchorName_first:
  assumes "\<exists>s\<in>set sections. sublist line s"
  shows "\<exists>i<length sections. sublist line (sections ! i) \<and> (\<forall>j<i. \<not> sublist line (sections ! j)) \<and>
          anchorName sections line = ''section'' @ show_nat (i + 1)"
proof -
  from first_index_exists[of sections "\<lambda>s. sublist line s", OF assms]
  obtain i where i: "i < length sections" "sublist line (sections ! i)"
    "\<forall>j<i. \<not> sublist line (sections ! j)" by blast
  have "findIndex (\<lambda>s. js_includes s line) sections = int i"
    unfolding findIndex_def
    using findIndexFrom_first[of i sections "\<lambda>s. js_includes s line" 0] i
    by (simp add: js_includes_sublist)
  then have "anchorName sections line = ''section'' @ show_nat (i + 1)"
    by (simp add: anchorName_def show_int_def nat_add_distrib)
  with i show ?thesis by blast
qed

lemma anchorName_none:
  assumes "\<forall>s\<in>set sections. \<not> sublist line s"
  shows "anchorName sections line = ''section0''"
proof -
  have "findIndex (\<lambda>s. js_includes s line) sections = - 1"
    unfolding findIndex_def using assms
    by (intro findIndexFrom_none) (simp add: js_includes_sublist)
  then show ?thesis by (simp add: anchorName_def show_int_def show_nat.simps digit_def)
qed

lemma dest_blocks:
  "map (\<lambda>b. (btext b, bdest b))
     (filter (\<lambda>b. bdest b \<noteq> None) (allBlocks (layoutContent M analysisResult sections format))) =
   map (\<lambda>line. (line, Some (anchorName sections line)))
     (filter (isHeader sections) (split_nl analysisResult))"
proof -
  have l: "map (\<lambda>b. (btext b, bdest b))
     (filter (\<lambda>b. bdest b \<noteq> None) (map (lineBlock sections format) ls)) =
     map (\<lambda>line. (line, Some (anchorName sections line))) (filter (isHeader sections) ls)" for ls
    by (induction ls) (simp_all add: lineBlock_def)
  have t: "filter (\<lambda>b. bdest b \<noteq> None) (map tocBlock es) = []" for es
    by (induction es) (simp_all add: tocBlock_def)
  show ?thesis
    by (simp add: layoutContent_blocks(2) l t titleBlock_def tocHeading_def del: not_None_eq)
qed

lemma link_blocks:
  "filter (\<lambda>b. blink b \<noteq> None) (allBlocks (layoutContent M analysisResult sections format)) =
     (if format = ''presentation'' then [] else map tocBlock (enumerate 0 sections))"
proof -
  have l: "filter (\<lambda>b. blink b \<noteq> None) (map (lineBlock sections format) ls) = []" for ls
    by (induction ls) (simp_all add: lineBlock_def)
  have t: "filter (\<lambda>b. blink b \<noteq> None) (map tocBlock es) = map tocBlock es" for es
    by (induction es) (simp_all add: tocBlock_def)
  show ?thesis
    by (simp add: layoutContent_blocks(2) l t titleBlock_def tocHeading_def del: not_None_eq)
qed

lemma tocHeading_present:
  "tocHeading \<in> set (allBlocks (layoutContent M analysisResult sections format))
     \<longleftrightarrow> format \<noteq> ''presentation''"
  by (auto simp add: layoutContent_blocks(2) titleBlock_def tocHeading_def tocBlock_def
      lineBlock_def)

lemma tocLink_not_zero: "tocLink i \<noteq> ''#section0''"
  using show_nat_zero[of "i + 1"] by (simp add: tocLink_def)

lemmas layout_defs = generatePDF_def layoutContent_def contentPass_def tocPass_def titlePass_def
  tocEntry_def tocLink_def newDocument_def addPage_def flushPages_def contentLine_def
  isHeader_def anchorName_def findIndex_def show_int_def ensureSpace_def text_at_def maxY_def
  fontSize_def moveDown_def writeBlock_def footerPass_def bufferedPageCount_def
  switchToPage_def no_opts_def footerText_def endDoc_def digit_def show_nat.simps Let_def
  a4_helvetica_def

section \<open>Claims about the layout engine\<close>

text \<open>
  Claim C1, as the code has it. A line of the narrative is a header line exactly when
  some requested section identifier is a substring of the line; a line that is only a
  substring of an identifier is a body line. When some requested identifier contains
  the line, the anchor of the header is \<open>section\<close> followed by \<open>i + 1\<close>, for the earliest
  index \<open>i\<close> whose identifier contains the line. The blocks of the laid-out document that
  carry an anchor are the header lines, in order, each with the anchor that
  \<open>anchorName\<close> computes.
\<close>

theorem header_classification_and_anchor:
  "(isHeader sections line \<longleftrightarrow> (\<exists>section\<in>set sections. sublist section line)) \<and>
   ((\<exists>s\<in>set sections. sublist line s) \<longrightarrow>
      (\<exists>i<length sections. sublist line (sections ! i) \<and> (\<forall>j<i. \<not> sublist line (sections ! j)) \<and>
          anchorName sections line = ''section'' @ show_nat (i + 1))) \<and>
   map (\<lambda>b. (btext b, bdest b))
     (filter (\<lambda>b. bdest b \<noteq> None) (allBlocks (layoutContent M analysisResult sections format))) =
   map (\<lambda>line. (line, Some (anchorName sections line)))
     (filter (isHeader sections) (split_nl analysisResult))"
  using isHeader_sublist anchorName_first dest_blocks by blast

text \<open>
  The symmetric reading of claim C1 fails: \<open>Market\<close> is a substring of the requested
  identifier \<open>Market Overview\<close>, and the line \<open>Market\<close> is not a header line.
\<close>

theorem header_classification_counterexample:
  "(sublist ''Market'' ''Market Overview'' \<or> sublist ''Market Overview'' ''Market'') \<and>
   \<not> isHeader [''Market Overview''] ''Market''"
  by (simp add: isHeader_def js_includes_sublist[symmetric])

text \<open>
  An instance of C1: with the sections \<open>Market\<close> and \<open>Market Overview\<close>, the line
  \<open>Market Overview\<close> is a header and its anchor is \<open>section2\<close>.
\<close>

theorem header_classification_and_anchor_witness:
  "(\<exists>s\<in>set [''Market'', ''Market Overview'']. sublist ''Market Overview'' s) \<and>
   isHeader [''Market'', ''Market Overview''] ''Market Overview'' \<and>
   anchorName [''Market'', ''Market Overview''] ''Market Overview'' = ''section2''"
proof -
  let ?S = "[''Market'', ''Market Overview'']"
  let ?L = "''Market Overview''"
  note T = header_classification_and_anchor[where sections = ?S and line = ?L
      and M = a4_helvetica and analysisResult = "[]" and format = "''summary''"]
  have h: "\<exists>s\<in>set ?S. sublist ?L s"
    by (simp add: js_includes_sublist[symmetric])
  have n: "\<not> sublist ?L ''Market''"
    by (simp add: js_includes_sublist[symmetric])
  have hd: "isHeader ?S ?L"
    using conjunct1[OF T] by (simp add: js_includes_sublist[symmetric])
  from conjunct1[OF conjunct2[OF T]] h
  have "\<exists>i<length ?S. sublist ?L (?S ! i) \<and> (\<forall>j<i. \<not> sublist ?L (?S ! j)) \<and>
          anchorName ?S ?L = ''section'' @ show_nat (i + 1)" by (rule mp)
  then obtain i where i: "i < length ?S" "sublist ?L (?S ! i)"
    "anchorName ?S ?L = ''section'' @ show_nat (i + 1)" by blast
  have "i = 1" using i(1,2) n by (cases i) auto
  with i(3) hd h show ?thesis by (simp add: show_nat.simps digit_def)
qed

text \<open>
  Claim C4 does not hold of the padding loop. For the format \<open>detailed\<close> the loop runs
  while the buffered page count is below 15; the document does not buffer pages, so the
  count is 1 after every \<open>addPage\<close> and the loop never ends. \<open>generatePDF\<close> returns
  no document, for every text and every section list.
\<close>

theorem detailed_never_returns:
  "generatePDF M analysisResult sections ''detailed'' = None"
proof -
  have "unbuffered (layoutContent M analysisResult sections ''detailed'')"
    by (rule layoutContent_blocks(1))
  then have "padPages (layoutContent M analysisResult sections ''detailed'') = None"
    by (rule padPages_unbuffered)
  then show ?thesis by (simp add: generatePDF_def)
qed

text \<open>
  Claim C5 does not hold of the footer pass. The buffered page count is 1 whatever the
  number of pages. A summary report of 60 lines \<open>x\<close> needs a second page; the footer
  loop then switches to page 0, which is no longer buffered, and the exception rejects
  the promise. The summary report of the empty text has one page; its only footer reads
  \<open>Page 1 of 1\<close>, and since it is placed on the bottom margin, where no line fits, it
  starts a second page: page 0 has no footer and page 1 is numbered 1 of 1.
\<close>

theorem footer_pass_failing_inputs:
  "generatePDF a4_helvetica (concat (replicate 60 [CHR ''x'', CHR 0x0A])) [] ''summary'' =
     Some (Inl (OutOfBounds 0)) \<and>
   generatePDF a4_helvetica [] [] ''summary'' =
     Some (Inr [[titleBlock, tocHeading,
                 \<lparr>btext = [], bsize = 12, bcenter = False, blink = None, bdest = None\<rparr>],
                [\<lparr>btext = ''Page 1 of 1'', bsize = 10, bcenter = True, blink = None,
                   bdest = None\<rparr>]])"
  by (simp add: layout_defs titleBlock_def tocHeading_def eval_nat_numeral)

text \<open>
  Claim C6. For every format other than \<open>presentation\<close> the blocks of the laid-out
  document that carry a link are exactly the table-of-contents entries: one per
  requested section, in the requested order, the entry of the section at index \<open>i\<close>
  showing the section with the link \<open>#section\<close> followed by \<open>i + 1\<close>; and the heading
  \<open>Table of Contents\<close> is in the document. For the format \<open>presentation\<close> there is
  neither heading nor entry. The same entries are the linked blocks of every document
  that \<open>generatePDF\<close> returns.
\<close>

theorem toc_entries:
  "filter (\<lambda>b. blink b \<noteq> None) (allBlocks (layoutContent M analysisResult sections format)) =
     (if format = ''presentation'' then [] else map tocBlock (enumerate 0 sections)) \<and>
   (tocHeading \<in> set (allBlocks (layoutContent M analysisResult sections format))
      \<longleftrightarrow> format \<noteq> ''presentation'') \<and>
   (generatePDF M analysisResult sections format = Some (Inr pages) \<longrightarrow>
      filter (\<lambda>b. blink b \<noteq> None) (concat pages) =
        (if format = ''presentation'' then [] else map tocBlock (enumerate 0 sections)))"
proof -
  have "filter (\<lambda>b. blink b \<noteq> None) (concat pages) =
        (if format = ''presentation'' then [] else map tocBlock (enumerate 0 sections))"
    if "generatePDF M analysisResult sections format = Some (Inr pages)"
    using generatePDF_returns(2)[OF that] link_blocks[of M analysisResult sections format]
    by (simp del: not_None_eq)
  then show ?thesis
    using link_blocks tocHeading_present by blast
qed

text \<open>An instance of C6: a summary report with the sections \<open>Intro\<close> and \<open>Prices\<close>.\<close>

theorem toc_entries_witness:
  "generatePDF a4_helvetica ''Intro'' [''Intro'', ''Prices''] ''summary'' =
     Some (Inr [[titleBlock, tocHeading, tocBlock (0, ''Intro''), tocBlock (1, ''Prices''),
                 \<lparr>btext = ''Intro'', bsize = 18, bcenter = False, blink = None,
                   bdest = Some ''section1''\<rparr>],
                [\<lparr>btext = ''Page 1 of 1'', bsize = 10, bcenter = True, blink = None,
                   bdest = None\<rparr>]]) \<and>
   filter (\<lambda>b. blink b \<noteq> None)
     (concat [[titleBlock, tocHeading, tocBlock (0, ''Intro''), tocBlock (1, ''Prices''),
                 \<lparr>btext = ''Intro'', bsize = 18, bcenter = False, blink = None,
                   bdest = Some ''section1''\<rparr>],
                [\<lparr>btext = ''Page 1 of 1'', bsize = 10, bcenter = True, blink = None,
                   bdest = None\<rparr>]]) =
     [tocBlock (0, ''Intro''), tocBlock (1, ''Prices'')]"
proof -
  let ?P = "[[titleBlock, tocHeading, tocBlock (0, ''Intro''), tocBlock (1, ''Prices''),
                 \<lparr>btext = ''Intro'', bsize = 18, bcenter = False, blink = None,
                   bdest = Some ''section1''\<rparr>],
                [\<lparr>btext = ''Page 1 of 1'', bsize = 10, bcenter = True, blink = None,
                   bdest = None\<rparr>]]"
  have g: "generatePDF a4_helvetica ''Intro'' [''Intro'', ''Prices''] ''summary'' = Some (Inr ?P)"
    by (simp add: layout_defs titleBlock_def tocHeading_def tocBlock_def enumerate_eq_zip)
  note T = toc_entries[where M = a4_helvetica and analysisResult = "''Intro''"
      and sections = "[''Intro'', ''Prices'']" and format = "''summary''" and pages = ?P]
  from mp[OF conjunct2[OF conjunct2[OF T]] g]
  have "filter (\<lambda>b. blink b \<noteq> None) (concat ?P) =
      map tocBlock (enumerate 0 [''Intro'', ''Prices''])" by simp
  then have "filter (\<lambda>b. blink b \<noteq> None) (concat ?P) =
      [tocBlock (0, ''Intro''), tocBlock (1, ''Prices'')]"
    by (simp add: enumerate_eq_zip del: not_None_eq)
  with g show ?thesis by blast
qed

text \<open>
  Claim C10. A header line that is not a substring of any requested section identifier
  gets the anchor \<open>section0\<close>. No table-of-contents entry links to it: the link of
  entry \<open>i\<close> is \<open>#section\<close> followed by \<open>i + 1\<close>, which is never \<open>#section0\<close>, and no
  block of the document has the link \<open>#section0\<close>. When the line occurs in the
  narrative, its header block with the anchor \<open>section0\<close> is in the document.
\<close>

theorem unmatched_header_anchor:
  assumes "isHeader sections line" and "\<forall>s\<in>set sections. \<not> sublist line s"
  shows "anchorName sections line = ''section0'' \<and>
    (\<forall>i. tocLink i \<noteq> ''#section0'') \<and>
    (\<forall>b\<in>set (allBlocks (layoutContent M analysisResult sections format)).
        blink b \<noteq> Some ''#section0'') \<and>
    (line \<in> set (split_nl analysisResult) \<longrightarrow>
       \<lparr>btext = line, bsize = 18, bcenter = False, blink = None, bdest = Some ''section0''\<rparr>
         \<in> set (allBlocks (layoutContent M analysisResult sections format)))"
proof -
  have a: "anchorName sections line = ''section0''"
    using assms(2) by (rule anchorName_none)
  have l: "\<forall>b\<in>set (allBlocks (layoutContent M analysisResult sections format)).
        blink b \<noteq> Some ''#section0''"
  proof
    fix b assume b: "b \<in> set (allBlocks (layoutContent M analysisResult sections format))"
    show "blink b \<noteq> Some ''#section0''"
    proof
      assume s: "blink b = Some ''#section0''"
      then have "b \<in> set (filter (\<lambda>b. blink b \<noteq> None)
          (allBlocks (layoutContent M analysisResult sections format)))"
        using b by simp
      then obtain e where "b = tocBlock e"
        unfolding link_blocks by (auto split: if_splits)
      with s tocLink_not_zero[of "fst e"] show False
        by (simp add: tocBlock_def tocLink_def)
    qed
  qed
  have h: "line \<in> set (split_nl analysisResult) \<longrightarrow>
       \<lparr>btext = line, bsize = 18, bcenter = False, blink = None, bdest = Some ''section0''\<rparr>
         \<in> set (allBlocks (layoutContent M analysisResult sections format))"
  proof
    assume "line \<in> set (split_nl analysisResult)"
    then have "lineBlock sections format line
        \<in> set (map (lineBlock sections format) (split_nl analysisResult))" by simp
    moreover have "lineBlock sections format line =
      \<lparr>btext = line, bsize = 18, bcenter = False, blink = None, bdest = Some ''section0''\<rparr>"
      using assms(1) a by (simp add: lineBlock_def)
    ultimately show "\<lparr>btext = line, bsize = 18, bcenter = False, blink = None,
        bdest = Some ''section0''\<rparr>
         \<in> set (allBlocks (layoutContent M analysisResult sections format))"
      by (simp add: layoutContent_blocks(2))
  qed
  from a l h tocLink_not_zero show ?thesis by blast
qed

text \<open>
  An instance of C10: the section \<open>Market\<close> and the line \<open>Market Overview\<close>.
\<close>

theorem unmatched_header_anchor_witness:
  "isHeader [''Market''] ''Market Overview'' \<and> \<not> sublist ''Market Overview'' ''Market'' \<and>
   anchorName [''Market''] ''Market Overview'' = ''section0'' \<and>
   \<lparr>btext = ''Market Overview'', bsize = 18, bcenter = False, blink = None,
     bdest = Some ''section0''\<rparr>
     \<in> set (allBlocks (layoutContent a4_helvetica ''Market Overview'' [''Market''] ''summary''))"
proof -
  have h: "isHeader [''Market''] ''Market Overview''"
    by (simp add: isHeader_def)
  have n: "\<not> sublist ''Market Overview'' ''Market''"
    by (simp add: js_includes_sublist[symmetric])
  then have n': "\<forall>s\<in>set [''Market'']. \<not> sublist ''Market Overview'' s" by simp
  have m: "''Market Overview'' \<in> set (split_nl ''Market Overview'')" by simp
  from unmatched_header_anchor[OF h n', where M = a4_helvetica
      and analysisResult = "''Market Overview''" and format = "''summary''"] m h n
  show ?thesis by blast
qed

section \<open>Properties of the request handler\<close>


lemma resumeTask_effects:
  "resumeTask E c i t = (t', es) \<Longrightarrow> \<forall>e\<in>set es. taskEffect i c e"
  by (cases t) (auto split: sum.splits if_splits simp: taskEffect_def)

lemma resumeTask_not_AwaitGet: "resumeTask E c i t = (t', es) \<Longrightarrow> t' \<noteq> AwaitGet"
  by (cases t) (auto split: sum.splits if_splits)

lemma progress_append: "progress (xs @ ys) = progress xs @ progress ys"
  by (induction xs rule: progress.induct) simp_all

lemma allDone_Some:
  "allDone ts = Some ds \<Longrightarrow> length ds = length ts \<and> (\<forall>j<length ts. ts ! j = Done (ds ! j))"
proof (induction ts arbitrary: ds)
  case Nil
  then show ?case by simp
next
  case (Cons t ts)
  then obtain d ds' where t: "t = Done d" and a: "allDone ts = Some ds'" and ds: "ds = d # ds'"
    by (cases t) (auto split: option.splits)
  from Cons.IH[OF a] show ?case
    by (auto simp: t ds nth_Cons split: nat.splits)
qed

lemma awaitAll_Nil_cases:
  assumes "awaitAll E cs [] ts = (st, es, sched', ts')"
  shows "es = [] \<and> ts' = ts \<and> sched' = [] \<and>
    ((\<exists>ds. allDone ts = Some ds \<and> st = Resolved ds) \<or> (allDone ts = None \<and> st = Pending))"
  using assms by (auto split: option.splits)

lemma awaitAll_Cons_cases:
  assumes "awaitAll E cs (i # sched) ts = R"
  obtains (finished) ds where "allDone ts = Some ds" "R = (Resolved ds, [], i # sched, ts)"
  | (skip) "allDone ts = None" "\<not> i < length ts" "R = awaitAll E cs sched ts"
  | (fail) e es where "allDone ts = None" "i < length ts"
      "resumeTask E (cs ! i) i (ts ! i) = (Failed e, es)"
      "R = (Rejected e, es, sched, ts[i := Failed e])"
  | (step) t es st es' sched' ts' where "allDone ts = None" "i < length ts"
      "resumeTask E (cs ! i) i (ts ! i) = (t, es)" "\<forall>e. t \<noteq> Failed e"
      "awaitAll E cs sched (ts[i := t]) = (st, es', sched', ts')"
      "R = (st, es @ es', sched', ts')"
proof (cases "allDone ts")
  case (Some ds)
  with assms finished show ?thesis by simp
next
  case None
  show ?thesis
  proof (cases "i < length ts")
    case False
    with None assms skip show ?thesis by simp
  next
    case True
    obtain t es where r: "resumeTask E (cs ! i) i (ts ! i) = (t, es)" by fastforce
    show ?thesis
    proof (cases "\<exists>e. t = Failed e")
      case True
      then obtain e where "t = Failed e" by blast
      with None \<open>i < length ts\<close> r assms fail show ?thesis by simp
    next
      case False
      obtain st es' sched' ts' where
        a: "awaitAll E cs sched (ts[i := t]) = (st, es', sched', ts')"
        by (metis prod_cases4)
      have "R = (st, es @ es', sched', ts')"
        using None \<open>i < length ts\<close> r a False assms by (cases t) simp_all
      with None \<open>i < length ts\<close> r a False step show ?thesis by blast
    qed
  qed
qed


lemma awaitAll_effects:
  "awaitAll E cs sched ts = (st, es, sched', ts') \<Longrightarrow>
     length ts' = length ts \<and> (\<forall>e\<in>set es. \<exists>j<length ts. taskEffect j (cs ! j) e)"
proof (induction sched arbitrary: ts st es sched' ts')
  case Nil
  from awaitAll_Nil_cases[OF Nil] show ?case by simp
next
  case (Cons i sched)
  from Cons.prems show ?case
  proof (cases rule: awaitAll_Cons_cases)
    case (finished ds)
    then show ?thesis by simp
  next
    case skip
    with Cons.IH[of ts st es sched' ts'] show ?thesis by simp
  next
    case (fail e es1)
    with resumeTask_effects[OF fail(3)] show ?thesis by auto
  next
    case (step t es1 st1 es2 sched2 ts2)
    from Cons.IH[OF step(5)] resumeTask_effects[OF step(3)] step(2,6)
    show ?thesis by auto
  qed
qed

lemma drain_effects:
  "\<forall>e\<in>set (drain E cs sched ts). \<exists>j<length ts. taskEffect j (cs ! j) e"
proof (induction sched arbitrary: ts)
  case Nil
  show ?case by simp
next
  case (Cons i sched)
  show ?case
  proof (cases "i < length ts")
    case False
    with Cons.IH[of ts] show ?thesis by simp
  next
    case True
    obtain t es where r: "resumeTask E (cs ! i) i (ts ! i) = (t, es)" by fastforce
    from Cons.IH[of "ts[i := t]"] resumeTask_effects[OF r] True r
    show ?thesis by auto
  qed
qed

lemma resumeTask_served:
  assumes "cacheReply E i (cacheKey c) = Inr (Some s)" "s \<noteq> []" "served E s t"
    "resumeTask E c i t = (t', es)"
  shows "served E s t' \<and> (\<forall>e\<in>set es. \<not> fetches i e)"
  using assms by (cases t) (auto simp: served_def split: sum.splits)

lemma resumeTask_other:
  "resumeTask E c j t = (t', es) \<Longrightarrow> j \<noteq> i \<Longrightarrow> \<forall>e\<in>set es. \<not> fetches i e"
  by (cases t) (auto split: sum.splits if_splits)

lemma resumeTask_any:
  assumes "cacheReply E i (cacheKey (cs ! i)) = Inr (Some s)" "s \<noteq> []" "served E s (ts ! i)"
    "i < length ts" "j < length ts" "resumeTask E (cs ! j) j (ts ! j) = (t', es)"
  shows "served E s (ts[j := t'] ! i) \<and> (\<forall>e\<in>set es. \<not> fetches i e)"
proof (cases "j = i")
  case True
  with resumeTask_served[OF assms(1,2,3)] assms(4,6) show ?thesis by simp
next
  case False
  with resumeTask_other[OF assms(6), of i] assms(3) show ?thesis by simp
qed

lemma awaitAll_served:
  assumes hit: "cacheReply E i (cacheKey (cs ! i)) = Inr (Some s)" "s \<noteq> []"
  shows "awaitAll E cs sched ts = (st, es, sched', ts') \<Longrightarrow> i < length ts \<Longrightarrow>
     served E s (ts ! i) \<Longrightarrow>
     served E s (ts' ! i) \<and> (\<forall>e\<in>set es. \<not> fetches i e) \<and>
     (\<forall>ds. st = Resolved ds \<longrightarrow> parseJSON E s = Inr (ds ! i))"
proof (induction sched arbitrary: ts st es sched' ts')
  case Nil
  from awaitAll_Nil_cases[OF Nil(1)] Nil(2,3) show ?case
    by (auto simp: served_def dest!: allDone_Some)
next
  case (Cons j sched)
  from Cons.prems(1) show ?case
  proof (cases rule: awaitAll_Cons_cases)
    case (finished ds)
    with Cons.prems(2,3) show ?thesis
      by (auto simp: served_def dest!: allDone_Some)
  next
    case skip
    with Cons.IH[of ts st es sched' ts'] Cons.prems(2,3) show ?thesis by simp
  next
    case (fail e es1)
    from resumeTask_any[OF hit Cons.prems(3,2) fail(2,3)] fail(4)
    show ?thesis by simp
  next
    case (step t es1 st1 es2 sched2 ts2)
    from resumeTask_any[OF hit Cons.prems(3,2) step(2,3)]
    have s1: "served E s (ts[j := t] ! i)" and f1: "\<forall>e\<in>set es1. \<not> fetches i e" by simp_all
    from Cons.IH[OF step(5) _ s1] Cons.prems(2) f1 step(6)
    show ?thesis by auto
  qed
qed

lemma drain_served:
  assumes hit: "cacheReply E i (cacheKey (cs ! i)) = Inr (Some s)" "s \<noteq> []"
  shows "i < length ts \<Longrightarrow> served E s (ts ! i) \<Longrightarrow> \<forall>e\<in>set (drain E cs sched ts). \<not> fetches i e"
proof (induction sched arbitrary: ts)
  case Nil
  show ?case by simp
next
  case (Cons j sched)
  show ?case
  proof (cases "j < length ts")
    case False
    with Cons.IH[of ts] Cons.prems show ?thesis by simp
  next
    case True
    obtain t es where r: "resumeTask E (cs ! j) j (ts ! j) = (t, es)" by fastforce
    from resumeTask_any[OF hit Cons.prems(2,1) True r]
    have s1: "served E s (ts[j := t] ! i)" and f1: "\<forall>e\<in>set es. \<not> fetches i e" by simp_all
    from Cons.IH[OF _ s1] Cons.prems(1) f1 True r show ?thesis by auto
  qed
qed


lemma upt_split_at: "i < n \<Longrightarrow> [0..<n] = [0..<i] @ i # [Suc i..<n]"
proof -
  assume "i < n"
  then have "[0..<n] = [0..<i] @ [i..<i + (n - i)]"
    using upt_add_eq_append[of 0 i "n - i"] by simp
  with \<open>i < n\<close> show ?thesis by (simp add: upt_conv_Cons)
qed

lemma pendingHits_update:
  assumes "i < length ts" "t \<noteq> AwaitGet"
  shows "mset (pendingHits E cs ts) =
     (if ts ! i = AwaitGet \<and> cacheHit E cs i then {#i#} else {#}) +
     mset (pendingHits E cs (ts[i := t]))"
proof -
  let ?P = "\<lambda>ts j. ts ! j = AwaitGet \<and> cacheHit E cs j"
  have a: "filter (?P (ts[i := t])) [0..<i] = filter (?P ts) [0..<i]"
    by (rule filter_cong) auto
  have b: "filter (?P (ts[i := t])) [Suc i..<length ts] = filter (?P ts) [Suc i..<length ts]"
    by (rule filter_cong) auto
  have l: "pendingHits E cs ts =
     filter (?P ts) [0..<i] @ (if ?P ts i then [i] else []) @ filter (?P ts) [Suc i..<length ts]"
    unfolding pendingHits_def by (subst upt_split_at[OF assms(1)]) simp
  have r: "pendingHits E cs (ts[i := t]) =
     filter (?P ts) [0..<i] @ filter (?P ts) [Suc i..<length ts]"
    unfolding pendingHits_def length_list_update
    by (subst upt_split_at[OF assms(1)]) (simp add: a b assms del: upt_Suc)
  show ?thesis unfolding l r by (simp del: mset_filter mset_upt)
qed

lemma pendingHits_allDone: "allDone ts = Some ds \<Longrightarrow> pendingHits E cs ts = []"
  by (auto simp: pendingHits_def filter_empty_conv dest!: allDone_Some)

lemma resumeTask_progress:
  assumes "resumeTask E (cs ! i) i t = (t', es)"
  shows "progress es = (if t = AwaitGet \<and> cacheHit E cs i then [cachedMessage (cs ! i)] else [])"
  using assms by (cases t) (auto simp: cacheHit_def split: sum.splits if_splits)

lemma awaitAll_progress:
  "awaitAll E cs sched ts = (Resolved ds, es, sched', ts') \<Longrightarrow>
     mset (progress es) = image_mset (\<lambda>i. cachedMessage (cs ! i)) (mset (pendingHits E cs ts))"
proof (induction sched arbitrary: ts es sched' ts')
  case Nil
  from awaitAll_Nil_cases[OF Nil] show ?case
    by (auto simp: pendingHits_allDone simp del: mset_filter mset_upt)
next
  case (Cons i sched)
  from Cons.prems show ?case
  proof (cases rule: awaitAll_Cons_cases)
    case (finished ds')
    then show ?thesis by (simp add: pendingHits_allDone del: mset_filter mset_upt)
  next
    case skip
    with Cons.IH[of ts es sched' ts'] show ?thesis by simp
  next
    case (fail e es1)
    then show ?thesis by simp
  next
    case (step t es1 st1 es2 sched2 ts2)
    from step(6) have st: "st1 = Resolved ds" and es: "es = es1 @ es2" by simp_all
    from Cons.IH[OF step(5)[unfolded st]]
    have ih: "mset (progress es2) =
      image_mset (\<lambda>i. cachedMessage (cs ! i)) (mset (pendingHits E cs (ts[i := t])))" .
    have p1: "progress es1 =
      (if ts ! i = AwaitGet \<and> cacheHit E cs i then [cachedMessage (cs ! i)] else [])"
      using resumeTask_progress[OF step(3)] .
    show ?thesis
      unfolding es progress_append
      using ih p1 pendingHits_update[OF step(2) resumeTask_not_AwaitGet[OF step(3)], of E cs]
      by (simp del: mset_filter mset_upt)
  qed
qed

lemma pendingHits_initial:
  "pendingHits E cs (replicate n AwaitGet) = filter (cacheHit E cs) [0..<n]"
  unfolding pendingHits_def by (rule filter_cong) auto

lemma progress_dispatch:
  "progress (dispatch cs) = map (\<lambda>i. analyzingMessage i (length cs)) [0..<length cs]"
proof -
  have g: "progress (concat (map (\<lambda>(index, competitor).
        [Progress (f index), RedisGet index (k competitor)]) ps)) = map f (map fst ps)"
    for f :: "nat \<Rightarrow> string" and k :: "string \<Rightarrow> string" and ps
    by (induction ps) auto
  show ?thesis unfolding dispatch_def g by simp
qed

lemma progress_set: "m \<in> set (progress es) \<longleftrightarrow> Progress m \<in> set es"
  by (induction es rule: progress.induct) auto

lemma dispatch_effects:
  "e \<in> set (dispatch cs) \<Longrightarrow> (\<exists>m. e = Progress m) \<or> (\<exists>i k. e = RedisGet i k)"
  by (auto simp: dispatch_def)


text \<open>Every cached-data event uses up one pending hit, whatever the outcome.\<close>

lemma awaitAll_progress_pending:
  "awaitAll E cs sched ts = (st, es, sched', ts') \<Longrightarrow>
     mset (progress es) + image_mset (\<lambda>i. cachedMessage (cs ! i)) (mset (pendingHits E cs ts'))
       = image_mset (\<lambda>i. cachedMessage (cs ! i)) (mset (pendingHits E cs ts))"
proof (induction sched arbitrary: ts st es sched' ts')
  case Nil
  from awaitAll_Nil_cases[OF Nil] show ?case by simp
next
  case (Cons i sched)
  from Cons.prems show ?case
  proof (cases rule: awaitAll_Cons_cases)
    case (finished ds)
    then show ?thesis by simp
  next
    case skip
    with Cons.IH[of ts st es sched' ts'] show ?thesis by simp
  next
    case (fail e es1)
    have "Failed e \<noteq> AwaitGet" by simp
    from pendingHits_update[OF fail(2) this, of E cs] resumeTask_progress[OF fail(3)] fail(4)
    show ?thesis by (simp del: mset_filter mset_upt)
  next
    case (step t es1 st1 es2 sched2 ts2)
    from step(6) have es: "es = es1 @ es2" and ts': "ts' = ts2" by simp_all
    from Cons.IH[OF step(5)]
    have ih: "mset (progress es2) +
        image_mset (\<lambda>i. cachedMessage (cs ! i)) (mset (pendingHits E cs ts2)) =
      image_mset (\<lambda>i. cachedMessage (cs ! i)) (mset (pendingHits E cs (ts[i := t])))" .
    show ?thesis
      unfolding es ts' progress_append
      using ih resumeTask_progress[OF step(3)]
        pendingHits_update[OF step(2) resumeTask_not_AwaitGet[OF step(3)], of E cs]
      by (simp del: mset_filter mset_upt add: ac_simps)
  qed
qed

lemma drain_progress_pending:
  "mset (progress (drain E cs sched ts)) \<subseteq>#
     image_mset (\<lambda>i. cachedMessage (cs ! i)) (mset (pendingHits E cs ts))"
proof (induction sched arbitrary: ts)
  case Nil
  show ?case by simp
next
  case (Cons i sched)
  show ?case
  proof (cases "i < length ts")
    case False
    with Cons.IH[of ts] show ?thesis by simp
  next
    case True
    obtain t es where r: "resumeTask E (cs ! i) i (ts ! i) = (t, es)" by fastforce
    have d: "drain E cs (i # sched) ts = es @ drain E cs sched (ts[i := t])"
      using True r by simp
    have "mset (progress es) + mset (progress (drain E cs sched (ts[i := t]))) \<subseteq>#
      mset (progress es) +
        image_mset (\<lambda>i. cachedMessage (cs ! i)) (mset (pendingHits E cs (ts[i := t])))"
      using Cons.IH[of "ts[i := t]"] by simp
    also have "\<dots> = image_mset (\<lambda>i. cachedMessage (cs ! i)) (mset (pendingHits E cs ts))"
      using resumeTask_progress[OF r]
        pendingHits_update[OF True resumeTask_not_AwaitGet[OF r], of E cs]
      by (simp del: mset_filter mset_upt)
    finally show ?thesis unfolding d progress_append by simp
  qed
qed

lemma progress_catchError: "progress catchError = []"
  by (simp add: catchError_def)

lemma progress_catchAmong: "progress (catchAmong lag es) = progress es"
proof -
  have "progress (take lag es) @ progress (drop lag es) = progress (take lag es @ drop lag es)"
    by (simp only: progress_append)
  then show ?thesis by (simp add: catchAmong_def progress_append progress_catchError)
qed

lemma set_catchAmong: "set (catchAmong lag es) = set es \<union> {ConsoleError, Status500Json}"
proof -
  have "set (take lag es) \<union> set (drop lag es) = set es"
    by (metis append_take_drop_id set_append)
  then show ?thesis by (auto simp: catchAmong_def catchError_def)
qed

text \<open>The progress events after the competitor data: a prefix of the three stage events.\<close>

lemma progress_afterData:
  "progress (afterData E b ds) = [analysisMessage] \<or>
   progress (afterData E b ds) = [analysisMessage, pdfMessage] \<or>
   progress (afterData E b ds) = [analysisMessage, pdfMessage, completeMessage]"
  by (auto simp: afterData_def sendPdf_def catchError_def progress_append
      split: sum.splits option.splits)

lemma afterData_effects:
  "e \<in> set (afterData E b ds) \<Longrightarrow>
     e \<in> {ConsoleError, Status500Json, Progress analysisMessage, Progress pdfMessage,
           Progress completeMessage, EndStream, WriteHead 200 pdfHeaders,
           GenerateAIAnalysis ds (reportSections b) (reportFormat b)} \<or>
     (\<exists>t ss. e = GeneratePDF t ss (reportFormat b))"
  by (auto simp: afterData_def sendPdf_def catchError_def split: sum.splits option.splits)
    (meson sum.exhaust)

text \<open>The shape of the trace of a POST request with a body and a competitor list.\<close>

lemma handler_POST:
  assumes "httpMethod req = ''POST''" "body req = Some b" "competitors b = Some cs"
  obtains st es sched' ts' tl where
    "awaitAll E cs sched (replicate (length cs) AwaitGet) = (st, es, sched', ts')"
    "handler E sched req =
      [WriteHead 200 sseHeaders, Pipe, Progress startMessage] @ dispatch cs @ es @ tl"
    "st = Pending \<longrightarrow> tl = []"
    "\<forall>e. st = Rejected e \<longrightarrow> tl = catchAmong (catchLag E) (drain E cs sched' ts')"
    "\<forall>ds. st = Resolved ds \<longrightarrow> tl = afterData E b ds"
proof -
  obtain st es sched' ts' where
    a: "awaitAll E cs sched (replicate (length cs) AwaitGet) = (st, es, sched', ts')"
    by (metis prod_cases4)
  define tl where "tl =
     (case st of
        Pending \<Rightarrow> []
      | Rejected e \<Rightarrow> catchAmong (catchLag E) (drain E cs sched' ts')
      | Resolved ds \<Rightarrow> afterData E b ds)"
  have h: "handler E sched req =
      [WriteHead 200 sseHeaders, Pipe, Progress startMessage] @ dispatch cs @ es @ tl"
    using assms a by (cases st) (simp_all add: handler_def tl_def)
  have p: "st = Pending \<longrightarrow> tl = []"
    and r: "\<forall>e. st = Rejected e \<longrightarrow> tl = catchAmong (catchLag E) (drain E cs sched' ts')"
    and d: "\<forall>ds. st = Resolved ds \<longrightarrow> tl = afterData E b ds"
    by (simp_all add: tl_def)
  from that[OF a h p r d] show ?thesis .
qed


lemma cachedMessage_not_complete: "cachedMessage c \<noteq> completeMessage"
  by (simp add: cachedMessage_def completeMessage_def)



text \<open>
  The progress events of a POST request with a body and a competitor list, whatever
  the outcome: the start event, the per-competitor events, cached-data events of
  competitors that are cache hits, and a prefix of the three stage events, which is not
  empty only when every competitor has been resolved.
\<close>

lemma handler_progress:
  assumes "httpMethod req = ''POST''" "body req = Some b" "competitors b = Some cs"
  shows "\<exists>cached tail.
    progress (handler E sched req) =
      startMessage # map (\<lambda>i. analyzingMessage i (length cs)) [0..<length cs] @ cached @ tail \<and>
    tail \<in> {[], [analysisMessage], [analysisMessage, pdfMessage],
             [analysisMessage, pdfMessage, completeMessage]} \<and>
    mset cached \<subseteq>#
      mset (map (\<lambda>i. cachedMessage (cs ! i)) (filter (cacheHit E cs) [0..<length cs])) \<and>
    (tail \<noteq> [] \<longrightarrow>
      mset cached =
        mset (map (\<lambda>i. cachedMessage (cs ! i)) (filter (cacheHit E cs) [0..<length cs])))"
proof -
  let ?H = "mset (map (\<lambda>i. cachedMessage (cs ! i)) (filter (cacheHit E cs) [0..<length cs]))"
  let ?A = "map (\<lambda>i. analyzingMessage i (length cs)) [0..<length cs]"
  from handler_POST[OF assms, of E sched] obtain st es sched' ts' tl where
    a: "awaitAll E cs sched (replicate (length cs) AwaitGet) = (st, es, sched', ts')"
    and h: "handler E sched req =
      [WriteHead 200 sseHeaders, Pipe, Progress startMessage] @ dispatch cs @ es @ tl"
    and pe: "st = Pending \<longrightarrow> tl = []"
    and rj: "\<forall>e. st = Rejected e \<longrightarrow> tl = catchAmong (catchLag E) (drain E cs sched' ts')"
    and rs: "\<forall>ds. st = Resolved ds \<longrightarrow> tl = afterData E b ds"
    by blast
  have p: "progress (handler E sched req) = startMessage # ?A @ progress es @ progress tl"
    unfolding h by (simp add: progress_append progress_dispatch)
  have bal: "mset (progress es) +
      image_mset (\<lambda>i. cachedMessage (cs ! i)) (mset (pendingHits E cs ts')) = ?H"
    using awaitAll_progress_pending[OF a] by (simp add: pendingHits_initial del: mset_filter mset_upt)
  then have le: "mset (progress es) \<subseteq># ?H"
    by (metis mset_subset_eq_add_left)
  show ?thesis
  proof (cases st)
    case Pending
    with pe have "tl = []" by simp
    with p le show ?thesis
      by (intro exI[of _ "progress es"] exI[of _ "[]"]) simp
  next
    case (Rejected e)
    with rj have tl: "tl = catchAmong (catchLag E) (drain E cs sched' ts')" by simp
    have "mset (progress es) + mset (progress (drain E cs sched' ts')) \<subseteq>#
        mset (progress es) +
        image_mset (\<lambda>i. cachedMessage (cs ! i)) (mset (pendingHits E cs ts'))"
      using drain_progress_pending[of E cs sched' ts'] by simp
    with bal have "mset (progress es @ progress (drain E cs sched' ts')) \<subseteq># ?H" by simp
    with p tl show ?thesis
      by (intro exI[of _ "progress es @ progress (drain E cs sched' ts')"] exI[of _ "[]"])
        (simp add: progress_catchAmong)
  next
    case (Resolved ds)
    with rs have tl: "tl = afterData E b ds" by simp
    have eq: "mset (progress es) = ?H"
      using awaitAll_progress[OF a[unfolded Resolved]]
      by (simp add: pendingHits_initial del: mset_filter mset_upt)
    from progress_afterData[of E b ds] p tl eq show ?thesis
      by (intro exI[of _ "progress es"] exI[of _ "progress (afterData E b ds)"]) auto
  qed
qed




lemma complete_in_shape:
  assumes "mset cached \<subseteq># mset (map (\<lambda>i. cachedMessage (cs ! i)) xs)"
    and "tail \<in> {[], [analysisMessage], [analysisMessage, pdfMessage],
             [analysisMessage, pdfMessage, completeMessage]}"
  shows "completeMessage \<in> set (startMessage # map (\<lambda>i. analyzingMessage i n) ys @ cached @ tail)
    \<longleftrightarrow> tail = [analysisMessage, pdfMessage, completeMessage]"
proof -
  have c: "completeMessage \<notin> set cached"
  proof
    assume "completeMessage \<in> set cached"
    then have "completeMessage \<in># mset (map (\<lambda>i. cachedMessage (cs ! i)) xs)"
      using assms(1) by (metis mset_subset_eqD set_mset_mset)
    then obtain x where "completeMessage = cachedMessage (cs ! x)" by auto
    with cachedMessage_not_complete[of "cs ! x"] show False by simp
  qed
  have a: "completeMessage \<notin> set (map (\<lambda>i. analyzingMessage i n) ys)"
    by (auto simp: analyzingMessage_def completeMessage_def)
  have s: "completeMessage \<noteq> startMessage" "completeMessage \<noteq> analysisMessage"
    "completeMessage \<noteq> pdfMessage"
    by (simp_all add: completeMessage_def startMessage_def analysisMessage_def pdfMessage_def)
  from assms(2) c a s show ?thesis by auto
qed

lemma acmePdf_generated:
  assumes "f = ''summary'' \<or> f = ''xml''"
  shows "generatePDF a4_helvetica [] [''Market Overview''] f = Some (Inr acmePdf)"
  using assms
  by (auto simp add: layout_defs acmePdf_def titleBlock_def tocHeading_def tocBlock_def
      enumerate_eq_zip)

lemma exampleJSON_nonempty: "exampleJSON \<noteq> []"
  by (simp add: exampleJSON_def)

lemmas handler_defs = handler_def afterData_def generateAIAnalysis_def sendPdf_def
  catchAmong_def dispatch_def enumerate_eq_zip coldEnv_def warmEnv_def mixedEnv_def
  acmeRequest_def duoRequest_def detailedRequest_def emptyXmlRequest_def acmeBody_def
  cacheKey_def siteUrl_def catchError_def exampleJSON_nonempty

text \<open>The traces of the examples.\<close>

lemma acme_cold_trace:
  "handler coldEnv [0, 0, 0] acmeRequest =
     [WriteHead 200 sseHeaders, Pipe, Progress startMessage,
      Progress (analyzingMessage 0 1), RedisGet 0 ''competitor:acme'',
      ScrapeWebsite 0 ''https://www.acme.com'',
      RedisSet 0 ''competitor:acme'' exampleJSON 86400,
      Progress analysisMessage,
      GenerateAIAnalysis [exampleData] (Some [''Market Overview'']) ''summary'',
      Progress pdfMessage, GeneratePDF [] [''Market Overview''] ''summary'',
      Progress completeMessage, EndStream, WriteHead 200 pdfHeaders,
      ConsoleError, Status500Json]"
  by (simp add: handler_defs acmePdf_generated)

lemma acme_warm_trace:
  "handler warmEnv [0] acmeRequest =
     [WriteHead 200 sseHeaders, Pipe, Progress startMessage,
      Progress (analyzingMessage 0 1), RedisGet 0 ''competitor:acme'',
      Progress (cachedMessage ''acme''),
      Progress analysisMessage,
      GenerateAIAnalysis [exampleData] (Some [''Market Overview'']) ''summary'',
      Progress pdfMessage, GeneratePDF [] [''Market Overview''] ''summary'',
      Progress completeMessage, EndStream, WriteHead 200 pdfHeaders,
      ConsoleError, Status500Json]"
  by (simp add: handler_defs acmePdf_generated)


lemma duo_mixed_trace:
  "handler mixedEnv [1, 0, 0, 0] duoRequest =
     [WriteHead 200 sseHeaders, Pipe, Progress startMessage,
      Progress (analyzingMessage 0 2), RedisGet 0 ''competitor:acme'',
      Progress (analyzingMessage 1 2), RedisGet 1 ''competitor:globex'',
      Progress (cachedMessage ''globex''),
      ScrapeWebsite 0 ''https://www.acme.com'',
      RedisSet 0 ''competitor:acme'' exampleJSON 86400,
      Progress analysisMessage,
      GenerateAIAnalysis [exampleData, exampleData] (Some [''Market Overview'']) ''summary'',
      Progress pdfMessage, GeneratePDF [] [''Market Overview''] ''summary'',
      Progress completeMessage, EndStream, WriteHead 200 pdfHeaders,
      ConsoleError, Status500Json]"
  by (simp add: handler_defs acmePdf_generated numeral_2_eq_2)

lemma empty_xml_trace:
  "handler coldEnv [] emptyXmlRequest =
     [WriteHead 200 sseHeaders, Pipe, Progress startMessage,
      Progress analysisMessage, GenerateAIAnalysis [] (Some [''Market Overview'']) ''xml'',
      Progress pdfMessage, GeneratePDF [] [''Market Overview''] ''xml'',
      Progress completeMessage, EndStream, WriteHead 200 pdfHeaders,
      ConsoleError, Status500Json]"
  by (simp add: handler_defs acmePdf_generated)

lemma null_body_trace:
  "handler coldEnv [] \<lparr>httpMethod = ''POST'', body = None\<rparr> = [ConsoleError, Status500Json]"
  by (simp add: handler_def catchError_def)


lemma taskEffect_not_analyzing:
  "taskEffect j c (Progress m) \<Longrightarrow> \<not> prefix ''Analyzing competitor '' m"
  by (auto simp: taskEffect_def cachedMessage_def)

lemma analyzing_prefix: "prefix ''Analyzing competitor '' (analyzingMessage i n)"
  by (simp add: analyzingMessage_def)

lemma taskEffect_not_StatusEnd: "\<not> taskEffect j c (StatusEnd n m)"
  by (simp add: taskEffect_def)

section \<open>Claims about the request handler\<close>

text \<open>
  Claim C2, as the code has it. For every POST request with a body and a list of \<open>N\<close>
  competitors, every outcome of the outside calls and every schedule, the progress
  events come in fixed stage order: the start event, the \<open>N\<close> per-competitor events in
  list order, cached-data events of competitors served from the cache (at most one
  each), and then the analysis, document and completion events, as far as the run gets.
  A run that emits the completion event has emitted all three stage events and one
  cached-data event for each cache hit: \<open>N + 4\<close> events and one more for each hit, so the
  number depends on the state of the cache.
\<close>

theorem progress_events_in_stage_order:
  assumes "httpMethod req = ''POST''" and "body req = Some b" and "competitors b = Some cs"
  shows "\<exists>cached tail.
    progress (handler E sched req) =
      startMessage # map (\<lambda>i. analyzingMessage i (length cs)) [0..<length cs] @ cached @ tail \<and>
    prefix tail [analysisMessage, pdfMessage, completeMessage] \<and>
    mset cached \<subseteq>#
      mset (map (\<lambda>i. cachedMessage (cs ! i)) (filter (cacheHit E cs) [0..<length cs])) \<and>
    (completeMessage \<in> set (progress (handler E sched req)) \<longrightarrow>
       tail = [analysisMessage, pdfMessage, completeMessage] \<and>
       mset cached =
         mset (map (\<lambda>i. cachedMessage (cs ! i)) (filter (cacheHit E cs) [0..<length cs])) \<and>
       length (progress (handler E sched req)) =
         length cs + 4 + length (filter (cacheHit E cs) [0..<length cs]))"
proof -
  let ?H = "map (\<lambda>i. cachedMessage (cs ! i)) (filter (cacheHit E cs) [0..<length cs])"
  let ?full = "[analysisMessage, pdfMessage, completeMessage]"
  from handler_progress[OF assms, of E sched] obtain cached tail where
    p: "progress (handler E sched req) =
      startMessage # map (\<lambda>i. analyzingMessage i (length cs)) [0..<length cs] @ cached @ tail"
    and t: "tail \<in> {[], [analysisMessage], [analysisMessage, pdfMessage], ?full}"
    and le: "mset cached \<subseteq># mset ?H"
    and eq: "tail \<noteq> [] \<longrightarrow> mset cached = mset ?H"
    by blast
  from t have pre: "prefix tail ?full" by auto
  have c: "tail = ?full \<and> mset cached = mset ?H \<and>
      length (progress (handler E sched req)) =
        length cs + 4 + length (filter (cacheHit E cs) [0..<length cs])"
    if "completeMessage \<in> set (progress (handler E sched req))"
  proof -
    from that complete_in_shape[OF le t, of "length cs" "[0..<length cs]"]
    have f: "tail = ?full" unfolding p by simp
    with eq have m: "mset cached = mset ?H" by simp
    then have "length cached = length ?H" by (rule mset_eq_length)
    with f m show ?thesis unfolding p by simp
  qed
  from p pre le c show ?thesis by blast
qed

text \<open>
  Claim C2 as stated fails at the request of one competitor with an empty cache: the
  run emits 5 progress events, not 4; and with the competitor in the cache the number
  of events is different again.
\<close>

theorem progress_events_counterexample:
  "httpMethod acmeRequest = ''POST'' \<and> body acmeRequest = Some acmeBody \<and>
   competitors acmeBody = Some [''acme''] \<and> reportFormat acmeBody = ''summary'' \<and>
   progress (handler coldEnv [0, 0, 0] acmeRequest) =
     [startMessage, analyzingMessage 0 1, analysisMessage, pdfMessage, completeMessage] \<and>
   length (progress (handler coldEnv [0, 0, 0] acmeRequest)) \<noteq> length [''acme''] + 3 \<and>
   length (progress (handler warmEnv [0] acmeRequest)) \<noteq>
     length (progress (handler coldEnv [0, 0, 0] acmeRequest))"
  by (simp add: acme_cold_trace acme_warm_trace) (simp add: acmeRequest_def acmeBody_def)

text \<open>An instance of C2: the request of one competitor, served from the cache.\<close>

theorem progress_events_in_stage_order_witness:
  "httpMethod acmeRequest = ''POST'' \<and> body acmeRequest = Some acmeBody \<and>
   competitors acmeBody = Some [''acme''] \<and>
   completeMessage \<in> set (progress (handler warmEnv [0] acmeRequest)) \<and>
   (\<exists>cached tail.
     progress (handler warmEnv [0] acmeRequest) =
       startMessage # map (\<lambda>i. analyzingMessage i 1) [0..<1] @ cached @ tail \<and>
     tail = [analysisMessage, pdfMessage, completeMessage] \<and>
     mset cached = {#cachedMessage ''acme''#} \<and>
     length (progress (handler warmEnv [0] acmeRequest)) = 1 + 4 + 1)"
proof -
  have m: "httpMethod acmeRequest = ''POST''" and b: "body acmeRequest = Some acmeBody"
    and c: "competitors acmeBody = Some [''acme'']"
    by (simp_all add: acmeRequest_def acmeBody_def)
  have e: "completeMessage \<in> set (progress (handler warmEnv [0] acmeRequest))"
    by (simp add: acme_warm_trace)
  have h: "filter (cacheHit warmEnv [''acme'']) [0..<length [''acme'']] = [0]"
    by (simp add: cacheHit_def warmEnv_def coldEnv_def exampleJSON_nonempty)
  from progress_events_in_stage_order[OF m b c, of warmEnv "[0]"] e m b c show ?thesis
    unfolding h by auto
qed

text \<open>
  Claim C3, as the code has it. The handler does not validate the competitor list or
  the format. Every POST request that has a body, and so every one whose body has an
  empty competitor list or a format outside \<open>detailed\<close>, \<open>summary\<close>, \<open>presentation\<close>, is
  not rejected: the first call on the response writes status 200 for the progress
  channel, the start event is emitted first, and the response is never ended with a
  4xx status.
\<close>

theorem no_validation_of_body_fields:
  assumes "httpMethod req = ''POST''" and "body req = Some b"
  shows "(\<exists>rest. handler E sched req =
            WriteHead 200 sseHeaders # Pipe # Progress startMessage # rest) \<and>
    (\<exists>more. progress (handler E sched req) = startMessage # more) \<and>
    (\<forall>n m. StatusEnd n m \<notin> set (handler E sched req))"
proof (cases "competitors b")
  case None
  with assms show ?thesis by (simp add: handler_def catchError_def)
next
  case (Some cs)
  from handler_POST[OF assms Some, of E sched] obtain st es sched' ts' tl where
    a: "awaitAll E cs sched (replicate (length cs) AwaitGet) = (st, es, sched', ts')"
    and h: "handler E sched req =
      [WriteHead 200 sseHeaders, Pipe, Progress startMessage] @ dispatch cs @ es @ tl"
    and pe: "st = Pending \<longrightarrow> tl = []"
    and rj: "\<forall>e. st = Rejected e \<longrightarrow> tl = catchAmong (catchLag E) (drain E cs sched' ts')"
    and rs: "\<forall>ds. st = Resolved ds \<longrightarrow> tl = afterData E b ds"
    by blast
  have n1: "StatusEnd n m \<notin> set (dispatch cs)" for n m
    using dispatch_effects[of "StatusEnd n m" cs] by auto
  have n2: "StatusEnd n m \<notin> set es" for n m
    using awaitAll_effects[OF a] taskEffect_not_StatusEnd by blast
  have n3: "StatusEnd n m \<notin> set (drain E cs sched' ts')" for n m
    using drain_effects[of E cs sched' ts'] taskEffect_not_StatusEnd by blast
  have n4: "StatusEnd n m \<notin> set tl" for n m
  proof (cases st)
    case Pending
    with pe show ?thesis by simp
  next
    case (Rejected e)
    with rj n3 show ?thesis by (simp add: set_catchAmong)
  next
    case (Resolved ds)
    with rs afterData_effects[of "StatusEnd n m" E b ds] show ?thesis by auto
  qed
  have "\<forall>n m. StatusEnd n m \<notin> set (handler E sched req)"
    unfolding h using n1 n2 n4 by simp
  moreover have "\<exists>more. progress (handler E sched req) = startMessage # more"
    unfolding h by simp
  ultimately show ?thesis unfolding h by simp
qed

text \<open>
  Claim C3 as stated fails at the POST request whose body has an empty competitor list
  and the format \<open>xml\<close>: the first call writes status 200, and four progress events are
  emitted.
\<close>

theorem request_validation_counterexample:
  "httpMethod emptyXmlRequest = ''POST'' \<and>
   body emptyXmlRequest =
     Some (acmeBody\<lparr>competitors := Some [], reportFormat := ''xml''\<rparr>) \<and>
   ''xml'' \<notin> {''detailed'', ''summary'', ''presentation''} \<and>
   hd (handler coldEnv [] emptyXmlRequest) = WriteHead 200 sseHeaders \<and>
   progress (handler coldEnv [] emptyXmlRequest) =
     [startMessage, analysisMessage, pdfMessage, completeMessage]"
  by (simp add: empty_xml_trace) (simp add: emptyXmlRequest_def)

text \<open>An instance of C3: the same request.\<close>

theorem no_validation_of_body_fields_witness:
  "httpMethod emptyXmlRequest = ''POST'' \<and>
   body emptyXmlRequest =
     Some (acmeBody\<lparr>competitors := Some [], reportFormat := ''xml''\<rparr>) \<and>
   (\<exists>rest. handler coldEnv [] emptyXmlRequest =
       WriteHead 200 sseHeaders # Pipe # Progress startMessage # rest) \<and>
   (\<exists>more. progress (handler coldEnv [] emptyXmlRequest) = startMessage # more) \<and>
   (\<forall>n m. StatusEnd n m \<notin> set (handler coldEnv [] emptyXmlRequest))"
proof -
  have m: "httpMethod emptyXmlRequest = ''POST''"
    and b: "body emptyXmlRequest =
     Some (acmeBody\<lparr>competitors := Some [], reportFormat := ''xml''\<rparr>)"
    by (simp_all add: emptyXmlRequest_def)
  from no_validation_of_body_fields[OF m b, of coldEnv "[]"] m b show ?thesis by blast
qed


text \<open>
  Claim C7. Let the cache read of the competitor at index \<open>i\<close> of a POST request be a
  hit: it succeeds with a string that is not empty (the test \<open>if (cachedData)\<close> of the
  source). Then, for every schedule and whatever the other calls do, the trace has no
  scraper call and no cache write for index \<open>i\<close>, and the record at index \<open>i\<close> of the
  data given to the analysis is the decoded cached string.
\<close>

theorem cache_hit_skips_scraper:
  assumes "httpMethod req = ''POST''" and "body req = Some b" and "competitors b = Some cs"
    and "i < length cs"
    and "cacheReply E i (cacheKey (cs ! i)) = Inr (Some s)" and "s \<noteq> []"
  shows "(\<forall>u. ScrapeWebsite i u \<notin> set (handler E sched req)) \<and>
    (\<forall>k v t. RedisSet i k v t \<notin> set (handler E sched req)) \<and>
    (\<forall>ds se f. GenerateAIAnalysis ds se f \<in> set (handler E sched req) \<longrightarrow>
        parseJSON E s = Inr (ds ! i))"
proof -
  from handler_POST[OF assms(1-3), of E sched] obtain st es sched' ts' tl where
    a: "awaitAll E cs sched (replicate (length cs) AwaitGet) = (st, es, sched', ts')"
    and h: "handler E sched req =
      [WriteHead 200 sseHeaders, Pipe, Progress startMessage] @ dispatch cs @ es @ tl"
    and pe: "st = Pending \<longrightarrow> tl = []"
    and rj: "\<forall>e. st = Rejected e \<longrightarrow> tl = catchAmong (catchLag E) (drain E cs sched' ts')"
    and rs: "\<forall>ds. st = Resolved ds \<longrightarrow> tl = afterData E b ds"
    by blast
  have s0: "served E s (replicate (length cs) AwaitGet ! i)"
    using assms(4) by (simp add: served_def)
  from awaitAll_served[OF assms(5,6) a _ s0] assms(4)
  have s1: "served E s (ts' ! i)" and f1: "\<forall>e\<in>set es. \<not> fetches i e"
    and p1: "\<forall>ds. st = Resolved ds \<longrightarrow> parseJSON E s = Inr (ds ! i)" by simp_all
  have l: "length ts' = length cs" using awaitAll_effects[OF a] by simp
  have f2: "\<forall>e\<in>set (drain E cs sched' ts'). \<not> fetches i e"
    using drain_served[OF assms(5,6) _ s1] assms(4) l by simp
  have f3: "\<forall>e\<in>set tl. \<not> fetches i e"
  proof (cases st)
    case Pending
    with pe show ?thesis by simp
  next
    case (Rejected e)
    with rj f2 show ?thesis by (auto simp: set_catchAmong)
  next
    case (Resolved ds)
    with rs have "tl = afterData E b ds" by simp
    then show ?thesis using afterData_effects[of _ E b ds] by fastforce
  qed
  have f4: "\<forall>e\<in>set (dispatch cs). \<not> fetches i e"
    using dispatch_effects by fastforce
  have all: "\<forall>e\<in>set (handler E sched req). \<not> fetches i e"
    unfolding h using f1 f3 f4 by auto
  have g: "parseJSON E s = Inr (ds ! i)"
    if g: "GenerateAIAnalysis ds se f \<in> set (handler E sched req)" for ds se f
  proof -
    have "GenerateAIAnalysis ds se f \<notin> set (dispatch cs)"
      using dispatch_effects[of "GenerateAIAnalysis ds se f" cs] by auto
    moreover have "GenerateAIAnalysis ds se f \<notin> set es"
      using awaitAll_effects[OF a] by (auto simp: taskEffect_def)
    ultimately have in_tl: "GenerateAIAnalysis ds se f \<in> set tl" using g unfolding h by simp
    have nd: "GenerateAIAnalysis ds se f \<notin> set (drain E cs sched' ts')"
      using drain_effects[of E cs sched' ts'] by (auto simp: taskEffect_def)
    have "st = Resolved ds"
    proof (cases st)
      case Pending
      with pe in_tl show ?thesis by simp
    next
      case (Rejected e)
      with rj in_tl nd show ?thesis by (simp add: set_catchAmong)
    next
      case (Resolved ds')
      with rs in_tl have "GenerateAIAnalysis ds se f \<in> set (afterData E b ds')" by simp
      from afterData_effects[OF this] have "ds = ds'" by auto
      with Resolved show ?thesis by simp
    qed
    with p1 show ?thesis by simp
  qed
  from all g show ?thesis by fastforce
qed

text \<open>
  An instance of C7: two competitors, the second one cached; its cache read completes
  first.
\<close>

theorem cache_hit_skips_scraper_witness:
  "httpMethod duoRequest = ''POST'' \<and>
   body duoRequest = Some (acmeBody\<lparr>competitors := Some [''acme'', ''globex'']\<rparr>) \<and>
   1 < length [''acme'', ''globex''] \<and>
   cacheReply mixedEnv 1 (cacheKey ([''acme'', ''globex''] ! 1)) = Inr (Some exampleJSON) \<and>
   exampleJSON \<noteq> [] \<and>
   (\<forall>u. ScrapeWebsite 1 u \<notin> set (handler mixedEnv [1, 0, 0, 0] duoRequest)) \<and>
   (\<forall>k v t. RedisSet 1 k v t \<notin> set (handler mixedEnv [1, 0, 0, 0] duoRequest)) \<and>
   GenerateAIAnalysis [exampleData, exampleData] (Some [''Market Overview'']) ''summary''
     \<in> set (handler mixedEnv [1, 0, 0, 0] duoRequest) \<and>
   parseJSON mixedEnv exampleJSON = Inr ([exampleData, exampleData] ! 1)"
proof -
  have m: "httpMethod duoRequest = ''POST''"
    and b: "body duoRequest = Some (acmeBody\<lparr>competitors := Some [''acme'', ''globex'']\<rparr>)"
    by (simp_all add: duoRequest_def)
  have cs: "competitors (acmeBody\<lparr>competitors := Some [''acme'', ''globex'']\<rparr>)
      = Some [''acme'', ''globex'']" by simp
  have l: "1 < length [''acme'', ''globex'']" by simp
  have c: "cacheReply mixedEnv 1 (cacheKey ([''acme'', ''globex''] ! 1)) = Inr (Some exampleJSON)"
    by (simp add: mixedEnv_def coldEnv_def)
  note n = exampleJSON_nonempty
  have g: "GenerateAIAnalysis [exampleData, exampleData] (Some [''Market Overview'']) ''summary''
     \<in> set (handler mixedEnv [1, 0, 0, 0] duoRequest)"
    by (subst duo_mixed_trace) simp
  note T = cache_hit_skips_scraper[OF m b cs l c n, of "[1, 0, 0, 0]"]
  from T have x: "\<forall>u. ScrapeWebsite 1 u \<notin> set (handler mixedEnv [1, 0, 0, 0] duoRequest)"
    by (rule conjunct1)
  from T have y: "\<forall>k v t. RedisSet 1 k v t \<notin> set (handler mixedEnv [1, 0, 0, 0] duoRequest)"
    by (rule conjunct1[OF conjunct2])
  from T g have p: "parseJSON mixedEnv exampleJSON = Inr ([exampleData, exampleData] ! 1)"
    by blast
  from m b l c n x y g p show ?thesis by blast
qed

text \<open>
  Claim C8. For every POST request with a body and a competitor list, every outcome of
  the outside calls and every schedule of their completions, the trace begins with the
  opening of the channel and the start event, followed for each competitor in list
  order by its \<open>Analyzing competitor\<close> event and then its cache read; everything that
  depends on a completion comes after, and no other event is an \<open>Analyzing
  competitor\<close> event. So these events are emitted in list order, each before its own
  asynchronous work is dispatched, independently of the completion order.
\<close>

theorem analyzing_events_in_list_order:
  assumes "httpMethod req = ''POST''" and "body req = Some b" and "competitors b = Some cs"
  shows "\<exists>rest.
    handler E sched req =
      [WriteHead 200 sseHeaders, Pipe, Progress startMessage] @
      concat (map (\<lambda>(index, competitor).
          [Progress (analyzingMessage index (length cs)), RedisGet index (cacheKey competitor)])
        (enumerate 0 cs)) @ rest \<and>
    (\<forall>m. Progress m \<in> set rest \<longrightarrow> \<not> prefix ''Analyzing competitor '' m) \<and>
    filter (prefix ''Analyzing competitor '') (progress (handler E sched req)) =
      map (\<lambda>i. analyzingMessage i (length cs)) [0..<length cs]"
proof -
  from handler_POST[OF assms, of E sched] obtain st es sched' ts' tl where
    a: "awaitAll E cs sched (replicate (length cs) AwaitGet) = (st, es, sched', ts')"
    and h: "handler E sched req =
      [WriteHead 200 sseHeaders, Pipe, Progress startMessage] @ dispatch cs @ es @ tl"
    and pe: "st = Pending \<longrightarrow> tl = []"
    and rj: "\<forall>e. st = Rejected e \<longrightarrow> tl = catchAmong (catchLag E) (drain E cs sched' ts')"
    and rs: "\<forall>ds. st = Resolved ds \<longrightarrow> tl = afterData E b ds"
    by blast
  have d: "\<not> prefix ''Analyzing competitor '' m"
    if "Progress m \<in> set (drain E cs sched' ts')" for m
    using that drain_effects[of E cs sched' ts'] taskEffect_not_analyzing by blast
  have t: "\<not> prefix ''Analyzing competitor '' m" if m: "Progress m \<in> set tl" for m
  proof (cases st)
    case Pending
    with pe m show ?thesis by simp
  next
    case (Rejected e)
    with rj m have "Progress m \<in> set (drain E cs sched' ts')" by (simp add: set_catchAmong)
    then show ?thesis by (rule d)
  next
    case (Resolved ds)
    with rs m have "Progress m \<in> set (afterData E b ds)" by simp
    from afterData_effects[OF this] have "m \<in> {analysisMessage, pdfMessage, completeMessage}"
      by auto
    then show ?thesis
      by (auto simp: analysisMessage_def pdfMessage_def completeMessage_def)
  qed
  have r: "\<not> prefix ''Analyzing competitor '' m" if m: "Progress m \<in> set (es @ tl)" for m
  proof (cases "Progress m \<in> set es")
    case True
    with awaitAll_effects[OF a] taskEffect_not_analyzing show ?thesis by blast
  next
    case False
    with m have "Progress m \<in> set tl" by simp
    then show ?thesis by (rule t)
  qed
  have f0: "filter (prefix ''Analyzing competitor '') (progress (es @ tl)) = []"
    using r by (auto simp: filter_empty_conv progress_set)
  have f1: "filter (prefix ''Analyzing competitor '')
      (map (\<lambda>i. analyzingMessage i n) xs) = map (\<lambda>i. analyzingMessage i n) xs" for n xs
    by (induction xs) (simp_all add: analyzing_prefix)
  have f: "filter (prefix ''Analyzing competitor '') (progress (handler E sched req)) =
      map (\<lambda>i. analyzingMessage i (length cs)) [0..<length cs]"
    unfolding h using f0
    by (simp add: progress_append progress_dispatch f1 startMessage_def)
  from h r f show ?thesis unfolding dispatch_def by (intro exI[of _ "es @ tl"]) simp
qed

text \<open>
  An instance of C8: two competitors, where the cache read of the second completes
  first.
\<close>

theorem analyzing_events_in_list_order_witness:
  "httpMethod duoRequest = ''POST'' \<and>
   body duoRequest = Some (acmeBody\<lparr>competitors := Some [''acme'', ''globex'']\<rparr>) \<and>
   filter (prefix ''Analyzing competitor '') (progress (handler mixedEnv [1, 0, 0, 0] duoRequest)) =
     [''Analyzing competitor 1 of 2...'', ''Analyzing competitor 2 of 2...'']"
proof -
  have m: "httpMethod duoRequest = ''POST''"
    and b: "body duoRequest = Some (acmeBody\<lparr>competitors := Some [''acme'', ''globex'']\<rparr>)"
    by (simp_all add: duoRequest_def)
  have cs: "competitors (acmeBody\<lparr>competitors := Some [''acme'', ''globex'']\<rparr>)
      = Some [''acme'', ''globex'']" by simp
  from analyzing_events_in_list_order[OF m b cs, of mixedEnv "[1, 0, 0, 0]"]
  have "filter (prefix ''Analyzing competitor '') (progress (handler mixedEnv [1, 0, 0, 0] duoRequest)) =
      map (\<lambda>i. analyzingMessage i (length [''acme'', ''globex'']))
        [0..<length [''acme'', ''globex'']]" by blast
  also have "\<dots> = [''Analyzing competitor 1 of 2...'', ''Analyzing competitor 2 of 2...'']"
    by (simp add: analyzingMessage_def show_nat.simps digit_def upt_rec)
  finally show ?thesis using m b by simp
qed




end
